theory Spec2Isabelle
  imports Main "HOL-Library.Word" "HOL-Library.Monad_Syntax"
begin

section \<open>Memory model\<close>

text \<open>
  The list of \<^verbatim>\<open>library.AbstractLinkedList.hpp\<close> is a ring of heap nodes reached through
  raw pointers. A node pointer is either \<open>NULL\<close> or the address of a cell; the cells a list
  owns are a partial map from addresses to node contents. A function of the model that
  reads a node through a pointer returns an \<open>option\<close>: \<open>None\<close> stands for undefined
  behaviour of the C++ code, that is, reading a field through \<open>NULL\<close> or through a pointer
  to no live node (or a renumbering walk that never comes back to the head). \<open>Some\<close>
  carries the value the C++ function returns, together with the updated objects where it
  mutates them.

  An \<open>int32\<close> index or length is an \<open>int\<close> in the range of \<open>int32\<close>, and every addition
  and subtraction the code makes on one is reduced to that range by \<open>int32\<close>, the
  two's-complement wrap-around of the targets of the library (the C++ standard leaves the
  overflow undefined). The change counter \<open>count_\<close> is a 32-bit word, read with \<open>sint\<close>,
  whose increment wraps around in the same way.

  A C++ member name ends in an underscore, which an Isabelle name cannot: the node's
  \<open>prev_\<close>, \<open>next_\<close>, \<open>index_\<close>, \<open>element_\<close> are \<open>n_prev\<close>, \<open>n_next\<close>, \<open>n_index\<close>,
  \<open>n_element\<close>; the list's \<open>illegal_\<close>, \<open>last_\<close>, \<open>count_\<close> are \<open>l_illegal\<close>, \<open>l_last\<close>,
  \<open>l_count\<close>; the iterator's \<open>count_.self\<close>, \<open>curs_\<close>, \<open>rindex_\<close> are \<open>i_self\<close>,
  \<open>i_curs\<close>, \<open>i_rindex\<close>.
\<close>

type_synonym addr = nat

definition int32 :: "int \<Rightarrow> int" where
  "int32 x = (x + 2147483648) mod 4294967296 - 2147483648"

datatype ptr = NULL | Ptr addr

record 'a LinkedNode =
  n_prev :: addr
  n_next :: addr
  n_index :: int
  n_element :: 'a

type_synonym 'a heap = "addr \<Rightarrow> 'a LinkedNode option"

definition deref :: "'a heap \<Rightarrow> ptr \<Rightarrow> 'a LinkedNode option" where
  "deref h p = (case p of NULL \<Rightarrow> None | Ptr a \<Rightarrow> h a)"

section \<open>LinkedNode\<close>

text \<open>
  Modelled from the spec: \<^verbatim>\<open>library.LinkedNode.hpp\<close> is included by the list but is not
  among the sources. The spec (sections 3 and 4.1) describes the node as a cell holding one
  element, its ring neighbours \<open>next\<close> and \<open>previous\<close> (never null; a single node's ring
  points to itself) and a running \<open>index\<close>, numbered \<open>0..n-1\<close> in traversal order from
  the logical head; the accessors are simple field reads.
\<close>

text \<open>Modelled from the spec: the accessor \<open>getIndex()\<close> of the missing node class.\<close>

definition Node_getIndex :: "'a heap \<Rightarrow> ptr \<Rightarrow> int option" where
  "Node_getIndex h p = map_option n_index (deref h p)"

text \<open>Modelled from the spec: the accessor \<open>getElement()\<close> of the missing node class.\<close>

definition Node_getElement :: "'a heap \<Rightarrow> ptr \<Rightarrow> 'a option" where
  "Node_getElement h p = map_option n_element (deref h p)"

text \<open>Modelled from the spec: the accessor \<open>getNext()\<close> of the missing node class.\<close>

definition Node_getNext :: "'a heap \<Rightarrow> ptr \<Rightarrow> ptr option" where
  "Node_getNext h p = map_option (\<lambda>n. Ptr (n_next n)) (deref h p)"

text \<open>Modelled from the spec: the accessor \<open>getPrevious()\<close> of the missing node class.\<close>

definition Node_getPrevious :: "'a heap \<Rightarrow> ptr \<Rightarrow> ptr option" where
  "Node_getPrevious h p = map_option (\<lambda>n. Ptr (n_prev n)) (deref h p)"

text \<open>
  Modelled from the spec: the constructor, \<open>construct(element)\<close>, gives a new isolated node
  whose \<open>next\<close> and \<open>previous\<close> point to itself and whose index is 0.
\<close>

definition Node_new :: "addr \<Rightarrow> 'a \<Rightarrow> 'a LinkedNode" where
  "Node_new a e = \<lparr>n_prev = a, n_next = a, n_index = 0, n_element = e\<rparr>"

text \<open>
  Modelled from the spec: renumbering on a structural change. The indices of the nodes
  logically after the point of change shift by \<open>d\<close> (\<open>+1\<close> on insertion, \<open>-1\<close> on
  removal): the walk follows \<open>next\<close> from the given node and stops at the logical head,
  the node of index 0, where traversal order starts. On a malformed ring the walk may
  never stop, hence the \<open>option\<close> recursion.
\<close>

partial_function (option) Node_shift :: "int \<Rightarrow> 'a heap \<Rightarrow> addr \<Rightarrow> 'a heap option" where
  "Node_shift d h a =
     (case h a of
        None \<Rightarrow> None
      | Some n \<Rightarrow>
          if n_index n = 0 then Some h
          else Node_shift d (h(a \<mapsto> n\<lparr>n_index := int32 (n_index n + d)\<rparr>)) (n_next n))"

declare Node_shift.simps [code]

text \<open>
  Modelled from the spec: \<open>insertAfter(node)\<close> splices the freshly constructed isolated
  \<open>node\<close> into the ring right after \<open>self\<close>; the new node takes the position after
  \<open>self\<close> and the nodes logically after it shift by \<open>+1\<close>.
\<close>

definition Node_insertAfter :: "addr \<Rightarrow> addr \<Rightarrow> 'a heap \<Rightarrow> 'a heap option" where
  "Node_insertAfter self node h = do {
     s \<leftarrow> h self;
     n \<leftarrow> h node;
     let h1 = h(node \<mapsto> n\<lparr>n_prev := self, n_next := n_next s, n_index := int32 (n_index s + 1)\<rparr>);
     x \<leftarrow> h1 (n_next s);
     let h2 = h1(n_next s \<mapsto> x\<lparr>n_prev := node\<rparr>);
     s2 \<leftarrow> h2 self;
     let h3 = h2(self \<mapsto> s2\<lparr>n_next := node\<rparr>);
     Node_shift 1 h3 (n_next s)
   }"

text \<open>
  Modelled from the spec: \<open>insertBefore(node)\<close> splices the isolated \<open>node\<close> into the ring
  right before \<open>self\<close>; the new node takes the index of \<open>self\<close>, and \<open>self\<close> with the nodes
  logically after it shift by \<open>+1\<close>.
\<close>

definition Node_insertBefore :: "addr \<Rightarrow> addr \<Rightarrow> 'a heap \<Rightarrow> 'a heap option" where
  "Node_insertBefore self node h = do {
     s \<leftarrow> h self;
     n \<leftarrow> h node;
     let h1 = h(node \<mapsto> n\<lparr>n_prev := n_prev s, n_next := self, n_index := n_index s\<rparr>);
     p \<leftarrow> h1 (n_prev s);
     let h2 = h1(n_prev s \<mapsto> p\<lparr>n_next := node\<rparr>);
     s2 \<leftarrow> h2 self;
     let h3 = h2(self \<mapsto> s2\<lparr>n_prev := node, n_index := int32 (n_index s2 + 1)\<rparr>);
     Node_shift 1 h3 (n_next s2)
   }"

text \<open>
  Modelled from the spec: the destructor run by \<open>delete node\<close>. Removal re-links the
  neighbours of the node to each other and renumbers: the nodes logically after the removed
  one shift by \<open>-1\<close>. The cell is then returned to the allocator.
\<close>

definition Node_delete :: "addr \<Rightarrow> 'a heap \<Rightarrow> 'a heap option" where
  "Node_delete node h = do {
     n \<leftarrow> h node;
     h1 \<leftarrow> Node_shift (-1) h (n_next n);
     n1 \<leftarrow> h1 node;
     x \<leftarrow> h1 (n_next n1);
     let h2 = h1(n_next n1 \<mapsto> x\<lparr>n_prev := n_prev n1\<rparr>);
     p \<leftarrow> h2 (n_prev n1);
     let h3 = h2(n_prev n1 \<mapsto> p\<lparr>n_next := n_next n1\<rparr>);
     Some (h3(node := None))
   }"

section \<open>AbstractLinkedList\<close>

text \<open>
  The fields of \<^verbatim>\<open>AbstractLinkedList\<close>: the construction flag of the \<open>Object\<close> base,
  \<open>illegal_\<close>, \<open>last_\<close> and \<open>count_\<close>. The cells of the nodes the list owns travel with it
  (\<open>heap\<close>), as does \<open>brk\<close>, the address the allocator hands out next: the allocator
  never hands out an address twice.
\<close>

record 'a LinkedList =
  l_isConstructed :: bool
  l_illegal :: 'a
  l_last :: ptr
  l_count :: "32 word"
  heap :: "'a heap"
  brk :: addr

text \<open>The constructor \<^verbatim>\<open>AbstractLinkedList(const T& illegal)\<close> of an object whose base
  was constructed.\<close>

definition LinkedList :: "'a \<Rightarrow> 'a LinkedList" where
  "LinkedList illegal =
     \<lparr>l_isConstructed = True, l_illegal = illegal, l_last = NULL, l_count = 0,
      heap = (\<lambda>a. None), brk = 0\<rparr>"

text \<open>
  \<^verbatim>\<open>new Node(element)\<close>: \<open>alloc\<close> tells whether the allocator serves the request. A
  served request yields the isolated node at a fresh address; a failed one
  (\<^verbatim>\<open>node == NULL || not node->isConstructed()\<close>, followed by \<^verbatim>\<open>delete node\<close>) leaves
  nothing behind, and is the \<open>None\<close> of this function.
\<close>

definition new_Node :: "bool \<Rightarrow> 'a \<Rightarrow> 'a LinkedList \<Rightarrow> (addr \<times> 'a LinkedList) option" where
  "new_Node alloc element l =
     (if alloc
      then Some (brk l, l\<lparr>heap := (heap l)(brk l \<mapsto> Node_new (brk l) element), brk := brk l + 1\<rparr>)
      else None)"

definition getLength :: "'a LinkedList \<Rightarrow> int option" where
  "getLength l =
     (if l_last l = NULL then Some 0
      else do { i \<leftarrow> Node_getIndex (heap l) (l_last l); Some (int32 (i + 1)) })"

definition isEmpty :: "'a LinkedList \<Rightarrow> bool" where
  "isEmpty l = (if l_last l = NULL then True else False)"

definition isIndex :: "'a LinkedList \<Rightarrow> int \<Rightarrow> bool option" where
  "isIndex l index = do {
     len \<leftarrow> getLength l;
     Some (if 0 \<le> index \<and> index < len then True else False)
   }"

definition isIndexOutOfBounds :: "'a LinkedList \<Rightarrow> int \<Rightarrow> bool option" where
  "isIndexOutOfBounds l index = do {
     len \<leftarrow> getLength l;
     Some (if index < 0 \<or> index > len then True else False)
   }"

text \<open>The loop \<^verbatim>\<open>for(i=0; i<index; i++) node = node->getNext();\<close> of \<open>getNodeByIndex\<close>,
  by the number of rounds left.\<close>

fun next_times :: "'a heap \<Rightarrow> nat \<Rightarrow> ptr \<Rightarrow> ptr option" where
  "next_times h 0 node = Some node"
| "next_times h (Suc k) node = do { nx \<leftarrow> Node_getNext h node; next_times h k nx }"

definition getNodeByIndex :: "'a LinkedList \<Rightarrow> int \<Rightarrow> ptr option" where
  "getNodeByIndex l index = do {
     ok \<leftarrow> isIndex l index;
     if \<not> ok then Some NULL
     else do {
       len \<leftarrow> getLength l;
       if index = int32 (len - 1) then Some (l_last l)
       else do {
         node \<leftarrow> Node_getNext (heap l) (l_last l);
         next_times (heap l) (nat index) node
       }
     }
   }"

text \<open>The loop of \<open>getNodeByElement\<close>,
  \<^verbatim>\<open>for(i=0; i<len; i++, node = node->getNext())\<close>, by the number of rounds left: a
  node whose element differs is skipped, the first equal one is returned, and \<open>NULL\<close>
  after \<open>len\<close> rounds.\<close>

fun scan_element :: "'a heap \<Rightarrow> 'a \<Rightarrow> nat \<Rightarrow> ptr \<Rightarrow> ptr option" where
  "scan_element h element 0 node = Some NULL"
| "scan_element h element (Suc k) node = do {
     e \<leftarrow> Node_getElement h node;
     if element \<noteq> e
     then do { nx \<leftarrow> Node_getNext h node; scan_element h element k nx }
     else Some node
   }"

definition getNodeByElement :: "'a LinkedList \<Rightarrow> 'a \<Rightarrow> ptr option" where
  "getNodeByElement l element = do {
     len \<leftarrow> getLength l;
     if len = 0 then Some NULL
     else do {
       node \<leftarrow> Node_getNext (heap l) (l_last l);
       scan_element (heap l) element (nat len) node
     }
   }"

text \<open>\<^verbatim>\<open>delete node\<close> on a node of the list's store.\<close>

definition delete_Node :: "ptr \<Rightarrow> 'a LinkedList \<Rightarrow> 'a LinkedList option" where
  "delete_Node node l =
     (case node of
        NULL \<Rightarrow> Some l
      | Ptr a \<Rightarrow> do { h \<leftarrow> Node_delete a (heap l); Some (l\<lparr>heap := h\<rparr>) })"

definition addNode :: "bool \<Rightarrow> int \<Rightarrow> 'a \<Rightarrow> 'a LinkedList \<Rightarrow> (bool \<times> 'a LinkedList) option" where
  "addNode alloc index element l = do {
     out \<leftarrow> isIndexOutOfBounds l index;
     if out then Some (False, l)
     else (case new_Node alloc element l of
        None \<Rightarrow> Some (False, l)
      | Some (node, l1) \<Rightarrow>
          if l_last l1 = NULL
          then Some (True, l1\<lparr>l_last := Ptr node, l_count := l_count l1 + 1\<rparr>)
          else if index > 0
          then do {
            after \<leftarrow> getNodeByIndex l1 (int32 (index - 1));
            case after of
              NULL \<Rightarrow> do { l2 \<leftarrow> delete_Node (Ptr node) l1; Some (False, l2) }
            | Ptr a \<Rightarrow> do {
                h \<leftarrow> Node_insertAfter a node (heap l1);
                let l2 = l1\<lparr>heap := h\<rparr>;
                let l3 = (if after = l_last l2 then l2\<lparr>l_last := Ptr node\<rparr> else l2);
                Some (True, l3\<lparr>l_count := l_count l3 + 1\<rparr>)
              }
          }
          else do {
            before \<leftarrow> getNodeByIndex l1 0;
            case before of
              NULL \<Rightarrow> do { l2 \<leftarrow> delete_Node (Ptr node) l1; Some (False, l2) }
            | Ptr b \<Rightarrow> do {
                h \<leftarrow> Node_insertBefore b node (heap l1);
                let l2 = l1\<lparr>heap := h\<rparr>;
                Some (True, l2\<lparr>l_count := l_count l2 + 1\<rparr>)
              }
          })
   }"

definition removeNode :: "ptr \<Rightarrow> 'a LinkedList \<Rightarrow> (bool \<times> 'a LinkedList) option" where
  "removeNode node l =
     (if node = NULL then Some (False, l)
      else do {
        l1 \<leftarrow> (if node = l_last l
               then do {
                 len \<leftarrow> getLength l;
                 if len = 1 then Some (l\<lparr>l_last := NULL\<rparr>)
                 else do { p \<leftarrow> Node_getPrevious (heap l) (l_last l); Some (l\<lparr>l_last := p\<rparr>) }
               }
               else Some l);
        l2 \<leftarrow> delete_Node node l1;
        Some (True, l2\<lparr>l_count := l_count l2 + 1\<rparr>)
      })"

text \<open>The public operations of the list. The one-argument \<open>add\<close> and the
  two-argument one are \<open>add\<close> and \<open>add_at\<close>; \<open>remove(index)\<close> is \<open>remove_at\<close> and the
  queue's \<open>remove()\<close> is \<open>remove_head\<close>.\<close>

definition add :: "bool \<Rightarrow> 'a \<Rightarrow> 'a LinkedList \<Rightarrow> (bool \<times> 'a LinkedList) option" where
  "add alloc element l =
     (if l_isConstructed l
      then do { len \<leftarrow> getLength l; addNode alloc len element l }
      else Some (False, l))"

definition add_at :: "bool \<Rightarrow> int \<Rightarrow> 'a \<Rightarrow> 'a LinkedList \<Rightarrow> (bool \<times> 'a LinkedList) option" where
  "add_at alloc index element l =
     (if l_isConstructed l then addNode alloc index element l else Some (False, l))"

definition remove_at :: "int \<Rightarrow> 'a LinkedList \<Rightarrow> (bool \<times> 'a LinkedList) option" where
  "remove_at index l =
     (if l_isConstructed l
      then do { node \<leftarrow> getNodeByIndex l index; removeNode node l }
      else Some (False, l))"

definition removeFirst :: "'a LinkedList \<Rightarrow> (bool \<times> 'a LinkedList) option" where
  "removeFirst l = remove_at 0 l"

definition removeLast :: "'a LinkedList \<Rightarrow> (bool \<times> 'a LinkedList) option" where
  "removeLast l = do { len \<leftarrow> getLength l; remove_at (int32 (len - 1)) l }"

definition remove_head :: "'a LinkedList \<Rightarrow> (bool \<times> 'a LinkedList) option" where
  "remove_head l = remove_at 0 l"

definition removeElement :: "'a \<Rightarrow> 'a LinkedList \<Rightarrow> (bool \<times> 'a LinkedList) option" where
  "removeElement element l =
     (if l_isConstructed l
      then do { node \<leftarrow> getNodeByElement l element; removeNode node l }
      else Some (False, l))"

definition get :: "'a LinkedList \<Rightarrow> int \<Rightarrow> 'a option" where
  "get l index =
     (if \<not> l_isConstructed l then Some (l_illegal l)
      else do {
        node \<leftarrow> getNodeByIndex l index;
        if node \<noteq> NULL then Node_getElement (heap l) node else Some (l_illegal l)
      })"

definition peek :: "'a LinkedList \<Rightarrow> 'a option" where
  "peek l = get l 0"

definition getFirst :: "'a LinkedList \<Rightarrow> 'a option" where
  "getFirst l = get l 0"

definition getLast :: "'a LinkedList \<Rightarrow> 'a option" where
  "getLast l = do { len \<leftarrow> getLength l; get l (int32 (len - 1)) }"

definition getIndexOf :: "'a LinkedList \<Rightarrow> 'a \<Rightarrow> int option" where
  "getIndexOf l element = do {
     node \<leftarrow> getNodeByElement l element;
     if node \<noteq> NULL then Node_getIndex (heap l) node else Some (- 1)
   }"

definition getIllegal :: "'a LinkedList \<Rightarrow> 'a" where
  "getIllegal l = l_illegal l"

definition setIllegal :: "'a \<Rightarrow> 'a LinkedList \<Rightarrow> 'a LinkedList" where
  "setIllegal v l = (if l_isConstructed l then l\<lparr>l_illegal := v\<rparr> else l)"

definition isIllegal :: "'a LinkedList \<Rightarrow> 'a \<Rightarrow> bool" where
  "isIllegal l v = (if \<not> l_isConstructed l then False else if l_illegal l = v then True else False)"

section \<open>LinkedList::Iterator\<close>

text \<open>
  The iterator's own fields: the construction flag, \<open>count_.self\<close>, \<open>curs_\<close> and
  \<open>rindex_\<close>. Its \<open>count_.list\<close>, \<open>last_\<close> and \<open>illegal_\<close> are references to the
  fields of the list, so the model reads them from the list the iterator is passed with.
\<close>

record Iterator =
  i_isConstructed :: bool
  i_self :: "32 word"
  i_curs :: ptr
  i_rindex :: int

definition ILLEGAL_INDEX :: int where
  "ILLEGAL_INDEX = - 1"

text \<open>\<open>construct(index)\<close>, called on an iterator object that could be allocated (its own
  \<open>Object\<close> base is constructed): the flag it returns and the cursor it sets.\<close>

definition Iterator_construct :: "int \<Rightarrow> 'a LinkedList \<Rightarrow> (bool \<times> ptr) option" where
  "Iterator_construct index l =
     (if \<not> l_isConstructed l then Some (False, NULL)
      else do {
        out \<leftarrow> isIndexOutOfBounds l index;
        if out then Some (False, NULL)
        else do { c \<leftarrow> getNodeByIndex l index; Some (True, c) }
      })"

definition Iterator_new :: "int \<Rightarrow> 'a LinkedList \<Rightarrow> Iterator option" where
  "Iterator_new index l = do {
     (ok, c) \<leftarrow> Iterator_construct index l;
     Some \<lparr>i_isConstructed = ok, i_self = l_count l, i_curs = c, i_rindex = ILLEGAL_INDEX\<rparr>
   }"

text \<open>\<open>getListIterator\<close>: the inner \<open>None\<close> is the \<open>NULL\<close> the function returns when
  the list is not constructed, the iterator cannot be allocated or its construction
  fails.\<close>

definition getListIterator :: "bool \<Rightarrow> int \<Rightarrow> 'a LinkedList \<Rightarrow> Iterator option option" where
  "getListIterator alloc index l =
     (if \<not> l_isConstructed l then Some None
      else if \<not> alloc then Some None
      else do { it \<leftarrow> Iterator_new index l; Some (if i_isConstructed it then Some it else None) })"

definition Iterator_hasNext :: "Iterator \<Rightarrow> 'a LinkedList \<Rightarrow> bool" where
  "Iterator_hasNext it l =
     (if l_count l \<noteq> i_self it then False
      else if i_curs it = NULL then False
      else True)"

definition Iterator_hasPrevious :: "Iterator \<Rightarrow> 'a LinkedList \<Rightarrow> bool option" where
  "Iterator_hasPrevious it l =
     (if l_count l \<noteq> i_self it then Some False
      else if l_last l = NULL then Some False
      else do {
        p \<leftarrow> Node_getPrevious (heap l) (i_curs it);
        if p = l_last l then Some False else Some True
      })"

definition Iterator_getNext :: "Iterator \<Rightarrow> 'a LinkedList \<Rightarrow> ('a \<times> Iterator) option" where
  "Iterator_getNext it l =
     (if \<not> Iterator_hasNext it l then Some (l_illegal l, it)
      else do {
        let node = i_curs it;
        c \<leftarrow> (if i_curs it \<noteq> l_last l then Node_getNext (heap l) (i_curs it) else Some NULL);
        r \<leftarrow> Node_getIndex (heap l) node;
        e \<leftarrow> Node_getElement (heap l) node;
        Some (e, it\<lparr>i_curs := c, i_rindex := r\<rparr>)
      })"

definition Iterator_getPrevious :: "Iterator \<Rightarrow> 'a LinkedList \<Rightarrow> ('a \<times> Iterator) option" where
  "Iterator_getPrevious it l = do {
     hp \<leftarrow> Iterator_hasPrevious it l;
     if \<not> hp then Some (l_illegal l, it)
     else do {
       c \<leftarrow> (if i_curs it = NULL then Some (l_last l) else Node_getPrevious (heap l) (i_curs it));
       r \<leftarrow> Node_getIndex (heap l) c;
       e \<leftarrow> Node_getElement (heap l) c;
       Some (e, it\<lparr>i_curs := c, i_rindex := r\<rparr>)
     }
   }"

definition Iterator_getPreviousIndex :: "Iterator \<Rightarrow> 'a LinkedList \<Rightarrow> int option" where
  "Iterator_getPreviousIndex it l = do {
     hp \<leftarrow> Iterator_hasPrevious it l;
     if \<not> hp then Some (- 1)
     else if i_curs it = NULL then Node_getIndex (heap l) (l_last l)
     else do { p \<leftarrow> Node_getPrevious (heap l) (i_curs it); Node_getIndex (heap l) p }
   }"

definition Iterator_getNextIndex :: "Iterator \<Rightarrow> 'a LinkedList \<Rightarrow> int option" where
  "Iterator_getNextIndex it l =
     (if Iterator_hasNext it l then Node_getIndex (heap l) (i_curs it) else getLength l)"

definition Iterator_add ::
  "bool \<Rightarrow> 'a \<Rightarrow> Iterator \<Rightarrow> 'a LinkedList \<Rightarrow> (bool \<times> Iterator \<times> 'a LinkedList) option" where
  "Iterator_add alloc element it l =
     (if l_count l \<noteq> i_self it then Some (False, it, l)
      else do {
        i \<leftarrow> Iterator_getNextIndex it l;
        (added, l') \<leftarrow> add_at alloc i element l;
        if added = False then Some (False, it, l')
        else Some (True, it\<lparr>i_self := i_self it + 1, i_rindex := ILLEGAL_INDEX\<rparr>, l')
      })"

definition Iterator_remove ::
  "Iterator \<Rightarrow> 'a LinkedList \<Rightarrow> (bool \<times> Iterator \<times> 'a LinkedList) option" where
  "Iterator_remove it l =
     (if l_count l \<noteq> i_self it then Some (False, it, l)
      else if i_rindex it = ILLEGAL_INDEX then Some (False, it, l)
      else do {
        ci \<leftarrow> Node_getIndex (heap l) (i_curs it);
        curs \<leftarrow> (if ci \<noteq> i_rindex it then Some (i_curs it)
                 else if i_curs it \<noteq> l_last l then Node_getNext (heap l) (i_curs it)
                 else Some NULL);
        (removed, l') \<leftarrow> remove_at (i_rindex it) l;
        if removed = False then Some (False, it, l')
        else Some (True, it\<lparr>i_self := i_self it + 1, i_rindex := ILLEGAL_INDEX, i_curs := curs\<rparr>, l')
      })"

text \<open>The illegal-value accessors of the iterator forward to the list, with no test of the
  counters.\<close>

definition Iterator_getIllegal :: "Iterator \<Rightarrow> 'a LinkedList \<Rightarrow> 'a" where
  "Iterator_getIllegal it l = getIllegal l"

definition Iterator_setIllegal :: "'a \<Rightarrow> Iterator \<Rightarrow> 'a LinkedList \<Rightarrow> 'a LinkedList" where
  "Iterator_setIllegal v it l = setIllegal v l"

definition Iterator_isIllegal :: "Iterator \<Rightarrow> 'a LinkedList \<Rightarrow> 'a \<Rightarrow> bool" where
  "Iterator_isIllegal it l v = isIllegal l v"

section \<open>Sequences of calls\<close>

text \<open>
  The mutating calls a client can make on a list, each with the allocator's answer where
  the call allocates a node, and what a call and a sequence of calls return.
\<close>

datatype 'a operation =
    Add bool 'a
  | AddAt bool int 'a
  | RemoveAt int
  | RemoveElement 'a
  | RemoveFirst
  | RemoveLast
  | RemoveHead

fun is_add :: "'a operation \<Rightarrow> bool" where
  "is_add (Add alloc e) = True"
| "is_add (AddAt alloc i e) = True"
| "is_add (RemoveAt i) = False"
| "is_add (RemoveElement e) = False"
| "is_add RemoveFirst = False"
| "is_add RemoveLast = False"
| "is_add RemoveHead = False"

fun run_op :: "'a operation \<Rightarrow> 'a LinkedList \<Rightarrow> (bool \<times> 'a LinkedList) option" where
  "run_op (Add alloc e) l = add alloc e l"
| "run_op (AddAt alloc i e) l = add_at alloc i e l"
| "run_op (RemoveAt i) l = remove_at i l"
| "run_op (RemoveElement e) l = removeElement e l"
| "run_op RemoveFirst l = removeFirst l"
| "run_op RemoveLast l = removeLast l"
| "run_op RemoveHead l = remove_head l"

fun run_ops :: "'a operation list \<Rightarrow> 'a LinkedList \<Rightarrow> (bool list \<times> 'a LinkedList) option" where
  "run_ops [] l = Some ([], l)"
| "run_ops (c # cs) l = do {
     (b, l1) \<leftarrow> run_op c l;
     (bs, l2) \<leftarrow> run_ops cs l1;
     Some (b # bs, l2)
   }"

text \<open>The number of calls of a sequence that are additions (or removals) and returned
  \<open>true\<close>.\<close>

fun successful :: "bool \<Rightarrow> 'a operation list \<Rightarrow> bool list \<Rightarrow> nat" where
  "successful adds (c # cs) (b # bs) =
     (if b \<and> is_add c = adds then 1 else 0) + successful adds cs bs"
| "successful adds cs bs = 0"

text \<open>The number of calls of a sequence that returned \<open>true\<close>, each of them one
  structural modification of the list.\<close>

definition modifications :: "bool list \<Rightarrow> nat" where
  "modifications bs = length (filter (\<lambda>b. b) bs)"

section \<open>The ring invariant\<close>

text \<open>
  \<open>ring h as xs\<close>: the cells at the addresses \<open>as\<close>, in this order, form the node ring
  of the sequence \<open>xs\<close>. The node at position \<open>k\<close> holds \<open>xs ! k\<close> and index \<open>k\<close>, its
  \<open>next\<close> is the node at position \<open>k + 1\<close> (the head after the tail) and its \<open>previous\<close>
  the node at position \<open>k - 1\<close> (the tail before the head).
\<close>

definition ring_node :: "addr list \<Rightarrow> 'a list \<Rightarrow> nat \<Rightarrow> 'a LinkedNode" where
  "ring_node as xs k =
     \<lparr>n_prev = as ! (if k = 0 then length as - 1 else k - 1),
      n_next = as ! (if Suc k = length as then 0 else Suc k),
      n_index = int k,
      n_element = xs ! k\<rparr>"

definition ring :: "'a heap \<Rightarrow> addr list \<Rightarrow> 'a list \<Rightarrow> bool" where
  "ring h as xs \<longleftrightarrow>
     distinct as \<and> length xs = length as \<and>
     (\<forall>k<length as. h (as ! k) = Some (ring_node as xs k))"

text \<open>
  \<open>list_wf l as xs\<close>: the list \<open>l\<close> holds the sequence \<open>xs\<close> in the nodes \<open>as\<close>. Its
  \<open>last_\<close> is the tail of the ring, or \<open>NULL\<close> when the list is empty; the allocator has
  handed out every address in use; and the list has at most \<open>2^31\<close> nodes, so that every
  index is an \<open>int32\<close>. At \<open>2^31\<close> nodes, one past \<open>INT32_MAX\<close>, \<open>getLength()\<close> has
  wrapped around and no index passes the bounds tests any more, so no list grows beyond.
\<close>

definition list_wf :: "'a LinkedList \<Rightarrow> addr list \<Rightarrow> 'a list \<Rightarrow> bool" where
  "list_wf l as xs \<longleftrightarrow>
     ring (heap l) as xs \<and>
     l_last l = (if as = [] then NULL else Ptr (last as)) \<and>
     (\<forall>a\<in>set as. a < brk l) \<and>
     length as \<le> 2147483648"

text \<open>
  \<open>list_inv l as xs\<close>: moreover a list whose construction failed is empty, as every list
  is that calls build from the constructor.
\<close>

definition list_inv :: "'a LinkedList \<Rightarrow> addr list \<Rightarrow> 'a list \<Rightarrow> bool" where
  "list_inv l as xs \<longleftrightarrow> list_wf l as xs \<and> (l_isConstructed l \<or> as = [])"

section \<open>Example states\<close>

text \<open>
  Concrete lists the theorems below are instantiated at. \<open>example_list\<close> is the list the
  calls \<open>add(10)\<close>, \<open>add(20)\<close>, \<open>add(1, 15)\<close> build from an empty list with illegal value
  \<open>-1\<close>; \<open>duplicates_list\<close> holds 10, 20, 20; \<open>unconstructed_list\<close> is a list whose
  \<open>Object\<close> base reports a failed construction; \<open>list_at_INT32_MAX\<close> is a one-element
  list that has seen \<open>2^31 - 1\<close> successful mutations; \<open>example_iterator\<close> is the
  iterator \<open>getListIterator(0)\<close> returns on \<open>example_list\<close>.
\<close>

definition example_list :: "int LinkedList" where
  "example_list =
     \<lparr>l_isConstructed = True, l_illegal = - 1, l_last = Ptr 1, l_count = 3,
      heap = (\<lambda>a. None)
        (0 \<mapsto> \<lparr>n_prev = 1, n_next = 2, n_index = 0, n_element = 10\<rparr>,
         1 \<mapsto> \<lparr>n_prev = 2, n_next = 0, n_index = 2, n_element = 20\<rparr>,
         2 \<mapsto> \<lparr>n_prev = 0, n_next = 1, n_index = 1, n_element = 15\<rparr>),
      brk = 3\<rparr>"

definition unconstructed_list :: "int LinkedList" where
  "unconstructed_list = (LinkedList 0)\<lparr>l_isConstructed := False\<rparr>"

definition list_at_INT32_MAX :: "int LinkedList" where
  "list_at_INT32_MAX =
     \<lparr>l_isConstructed = True, l_illegal = 0, l_last = Ptr 0, l_count = 0x7FFFFFFF,
      heap = (\<lambda>a. None)(0 \<mapsto> \<lparr>n_prev = 0, n_next = 0, n_index = 0, n_element = 7\<rparr>),
      brk = 1\<rparr>"

definition duplicates_list :: "int LinkedList" where
  "duplicates_list =
     \<lparr>l_isConstructed = True, l_illegal = - 1, l_last = Ptr 2, l_count = 3,
      heap = (\<lambda>a. None)
        (0 \<mapsto> \<lparr>n_prev = 2, n_next = 1, n_index = 0, n_element = 10\<rparr>,
         1 \<mapsto> \<lparr>n_prev = 0, n_next = 2, n_index = 1, n_element = 20\<rparr>,
         2 \<mapsto> \<lparr>n_prev = 1, n_next = 0, n_index = 2, n_element = 20\<rparr>),
      brk = 3\<rparr>"

definition example_iterator :: Iterator where
  "example_iterator = \<lparr>i_isConstructed = True, i_self = 3, i_curs = Ptr 0, i_rindex = - 1\<rparr>"

section \<open>Reading a well-formed list\<close>

lemma int32_id: "- 2147483648 \<le> x \<Longrightarrow> x < 2147483648 \<Longrightarrow> int32 x = x"
  by (simp add: int32_def)

lemma int32_length:
  "n \<le> 2147483648 \<Longrightarrow> int32 (int n) = (if n = 2147483648 then - 2147483648 else int n)"
  by (auto simp add: int32_def)

lemma int32_length_pos:
  "n \<le> 2147483648 \<Longrightarrow> 0 \<le> i \<Longrightarrow> i < int32 (int n) \<Longrightarrow> int32 (int n) = int n \<and> n \<le> 2147483647"
  by (auto simp add: int32_length split: if_splits)

lemma ringD:
  "ring h as xs \<Longrightarrow> k < length as \<Longrightarrow> h (as ! k) = Some (ring_node as xs k)"
  by (simp add: ring_def)

lemma ring_length: "ring h as xs \<Longrightarrow> length xs = length as"
  by (simp add: ring_def)

lemma ring_distinct: "ring h as xs \<Longrightarrow> distinct as"
  by (simp add: ring_def)

lemma list_inv_wf: "list_inv l as xs \<Longrightarrow> list_wf l as xs"
  by (simp add: list_inv_def)

lemma list_wf_length: "list_wf l as xs \<Longrightarrow> length as = length xs"
  by (simp add: list_wf_def ring_def)

lemma list_inv_length: "list_inv l as xs \<Longrightarrow> length as = length xs"
  by (auto simp add: list_inv_def dest: list_wf_length)

lemma getLength_wf:
  assumes "list_wf l as xs"
  shows "getLength l = Some (int32 (int (length as)))"
proof (cases "as = []")
  case True
  with assms show ?thesis by (simp add: list_wf_def getLength_def int32_def)
next
  case False
  then have k: "length as - 1 < length as" by simp
  from assms have r: "ring (heap l) as xs" and la: "l_last l = Ptr (last as)"
    using False by (simp_all add: list_wf_def)
  have "heap l (last as) = Some (ring_node as xs (length as - 1))"
    using ringD [OF r k] False by (simp add: last_conv_nth)
  moreover have "int (length as - 1) + 1 = int (length as)"
    using False by (cases as) simp_all
  ultimately show ?thesis
    using False la by (simp add: getLength_def Node_getIndex_def deref_def ring_node_def)
qed

lemma getLength_small:
  "list_wf l as xs \<Longrightarrow> length as \<le> 2147483647 \<Longrightarrow> getLength l = Some (int (length as))"
  by (simp add: getLength_wf int32_length)

lemma isIndex_wf:
  "list_wf l as xs \<Longrightarrow> isIndex l i = Some (0 \<le> i \<and> i < int32 (int (length as)))"
  by (simp add: isIndex_def getLength_wf)

lemma isIndexOutOfBounds_wf:
  "list_wf l as xs \<Longrightarrow> isIndexOutOfBounds l i = Some (i < 0 \<or> int32 (int (length as)) < i)"
  by (simp add: isIndexOutOfBounds_def getLength_wf)

lemma Node_getNext_ring:
  "ring h as xs \<Longrightarrow> k < length as \<Longrightarrow>
   Node_getNext h (Ptr (as ! k)) = Some (Ptr (as ! (if Suc k = length as then 0 else Suc k)))"
  by (simp add: Node_getNext_def deref_def ringD ring_node_def)

lemma Node_getPrevious_ring:
  "ring h as xs \<Longrightarrow> k < length as \<Longrightarrow>
   Node_getPrevious h (Ptr (as ! k)) = Some (Ptr (as ! (if k = 0 then length as - 1 else k - 1)))"
  by (simp add: Node_getPrevious_def deref_def ringD ring_node_def)

lemma Node_getIndex_ring:
  "ring h as xs \<Longrightarrow> k < length as \<Longrightarrow> Node_getIndex h (Ptr (as ! k)) = Some (int k)"
  by (simp add: Node_getIndex_def deref_def ringD ring_node_def)

lemma Node_getElement_ring:
  "ring h as xs \<Longrightarrow> k < length as \<Longrightarrow> Node_getElement h (Ptr (as ! k)) = Some (xs ! k)"
  by (simp add: Node_getElement_def deref_def ringD ring_node_def)

lemma next_times_ring:
  "ring h as xs \<Longrightarrow> j + m < length as \<Longrightarrow>
   next_times h m (Ptr (as ! j)) = Some (Ptr (as ! (j + m)))"
proof (induction m arbitrary: j)
  case 0
  then show ?case by simp
next
  case (Suc m)
  from Suc.prems have "Node_getNext h (Ptr (as ! j)) = Some (Ptr (as ! Suc j))"
    by (simp add: Node_getNext_ring)
  moreover have "next_times h m (Ptr (as ! Suc j)) = Some (Ptr (as ! (Suc j + m)))"
    using Suc.prems by (intro Suc.IH) simp_all
  ultimately show ?case by simp
qed

lemma getNodeByIndex_wf:
  assumes "list_wf l as xs"
  shows "getNodeByIndex l i =
         Some (if 0 \<le> i \<and> i < int32 (int (length as)) then Ptr (as ! nat i) else NULL)"
proof (cases "0 \<le> i \<and> i < int32 (int (length as))")
  case False
  then show ?thesis using assms by (auto simp add: getNodeByIndex_def isIndex_wf)
next
  case True
  from assms have bound: "length as \<le> 2147483648" by (simp add: list_wf_def)
  have len: "int32 (int (length as)) = int (length as)" and small: "length as \<le> 2147483647"
    using int32_length_pos [OF bound, of i] True by simp_all
  from True len have ne: "as \<noteq> []" by auto
  from assms ne have r: "ring (heap l) as xs" and la: "l_last l = Ptr (last as)"
    by (simp_all add: list_wf_def)
  have len1: "int32 (int (length as) - 1) = int (length as) - 1"
    using small by (intro int32_id) simp_all
  show ?thesis
  proof (cases "i = int (length as) - 1")
    case True
    then have "nat i = length as - 1" by simp
    then show ?thesis
      using assms True ne la \<open>0 \<le> i \<and> i < int32 (int (length as))\<close>
      by (simp add: getNodeByIndex_def isIndex_wf getLength_wf len len1 last_conv_nth)
  next
    case False
    have "Node_getNext (heap l) (Ptr (as ! (length as - 1))) = Some (Ptr (as ! 0))"
      using Node_getNext_ring [OF r, of "length as - 1"] ne by simp
    moreover have "next_times (heap l) (nat i) (Ptr (as ! 0)) = Some (Ptr (as ! (0 + nat i)))"
    proof (rule next_times_ring [OF r])
      show "0 + nat i < length as" using True len by arith
    qed
    ultimately show ?thesis
      using assms True False ne la
      by (simp add: getNodeByIndex_def isIndex_wf getLength_wf len len1 last_conv_nth)
  qed
qed

lemma scan_element_ring:
  assumes "ring h as xs"
  shows "j + m = length as \<Longrightarrow> (0 < m \<Longrightarrow> p = Ptr (as ! j)) \<Longrightarrow>
         scan_element h e m p =
         Some (if e \<in> set (drop j xs)
               then Ptr (as ! (j + length (takeWhile (\<lambda>x. x \<noteq> e) (drop j xs))))
               else NULL)"
proof (induction m arbitrary: j p)
  case 0
  then show ?case using ring_length [OF assms] by simp
next
  case (Suc m)
  have len: "length xs = length as" by (rule ring_length [OF assms])
  from Suc.prems have j: "j < length as" and p: "p = Ptr (as ! j)" by simp_all
  have d: "drop j xs = xs ! j # drop (Suc j) xs"
    using j len by (simp add: Cons_nth_drop_Suc)
  show ?case
  proof (cases "e = xs ! j")
    case True
    then show ?thesis using j p d by (simp add: Node_getElement_ring [OF assms])
  next
    case False
    have "scan_element h e m (Ptr (as ! (if Suc j = length as then 0 else Suc j))) =
          Some (if e \<in> set (drop (Suc j) xs)
               then Ptr (as ! (Suc j + length (takeWhile (\<lambda>x. x \<noteq> e) (drop (Suc j) xs))))
               else NULL)"
      using Suc.prems by (intro Suc.IH) auto
    then show ?thesis
      using False j p d
      by (simp add: Node_getElement_ring [OF assms] Node_getNext_ring [OF assms])
  qed
qed

lemma getNodeByElement_wf:
  assumes "list_wf l as xs"
  shows "getNodeByElement l e =
         Some (if length as \<le> 2147483647 \<and> e \<in> set xs
               then Ptr (as ! length (takeWhile (\<lambda>x. x \<noteq> e) xs)) else NULL)"
proof (cases "as = []")
  case True
  with assms have "xs = []" by (simp add: list_wf_def ring_def)
  with True assms show ?thesis by (simp add: getNodeByElement_def getLength_wf int32_def)
next
  case False
  from assms False have r: "ring (heap l) as xs" and la: "l_last l = Ptr (last as)"
    and bound: "length as \<le> 2147483648"
    by (simp_all add: list_wf_def)
  have nx: "Node_getNext (heap l) (Ptr (as ! (length as - 1))) = Some (Ptr (as ! 0))"
    using Node_getNext_ring [OF r, of "length as - 1"] False by simp
  show ?thesis
  proof (cases "length as \<le> 2147483647")
    case True
    have "scan_element (heap l) e (length as) (Ptr (as ! 0)) =
         Some (if e \<in> set (drop 0 xs)
               then Ptr (as ! (0 + length (takeWhile (\<lambda>x. x \<noteq> e) (drop 0 xs))))
               else NULL)"
      by (intro scan_element_ring [OF r]) simp_all
    then show ?thesis
      using assms False la nx True
      by (simp add: getNodeByElement_def getLength_small last_conv_nth)
  next
    case big: False
    with bound have "length as = 2147483648" by simp
    then show ?thesis
      using assms False la nx
      by (simp add: getNodeByElement_def getLength_wf int32_def last_conv_nth)
  qed
qed

section \<open>Renumbering walks\<close>

lemma Node_shift_walk:
  "distinct bs \<Longrightarrow> z \<notin> set bs \<Longrightarrow>
   (\<exists>nz. h z = Some nz \<and> n_index nz = 0) \<Longrightarrow>
   (\<forall>k<length bs. \<exists>n. h (bs ! k) = Some n \<and> n_index n \<noteq> 0 \<and> n_next n = (bs @ [z]) ! Suc k) \<Longrightarrow>
   Node_shift d h (hd (bs @ [z])) =
     Some (\<lambda>a. if a \<in> set bs then map_option (\<lambda>n. n\<lparr>n_index := int32 (n_index n + d)\<rparr>) (h a) else h a)"
proof (induction bs arbitrary: h)
  case Nil
  then show ?case by (subst Node_shift.simps) auto
next
  case (Cons b bs)
  from Cons.prems(4) [rule_format, of 0] obtain n where
    n: "h b = Some n" "n_index n \<noteq> 0" "n_next n = hd (bs @ [z])"
    by (cases bs) auto
  let ?h = "h(b \<mapsto> n\<lparr>n_index := int32 (n_index n + d)\<rparr>)"
  have "Node_shift d ?h (hd (bs @ [z])) =
     Some (\<lambda>a. if a \<in> set bs then map_option (\<lambda>n. n\<lparr>n_index := int32 (n_index n + d)\<rparr>) (?h a) else ?h a)"
  proof (rule Cons.IH)
    show "distinct bs" "z \<notin> set bs" using Cons.prems by simp_all
    show "\<exists>nz. ?h z = Some nz \<and> n_index nz = 0" using Cons.prems by auto
    show "\<forall>k<length bs. \<exists>n. ?h (bs ! k) = Some n \<and> n_index n \<noteq> 0 \<and> n_next n = (bs @ [z]) ! Suc k"
    proof (intro allI impI)
      fix k assume k: "k < length bs"
      then have "bs ! k \<noteq> b" using Cons.prems(1) by auto
      moreover from Cons.prems(4) [rule_format, of "Suc k"] k
      have "\<exists>n. h (bs ! k) = Some n \<and> n_index n \<noteq> 0 \<and> n_next n = (bs @ [z]) ! Suc k" by simp
      ultimately show "\<exists>n. ?h (bs ! k) = Some n \<and> n_index n \<noteq> 0 \<and> n_next n = (bs @ [z]) ! Suc k"
        by simp
    qed
  qed
  moreover have "(\<lambda>a. if a \<in> set bs then map_option (\<lambda>n. n\<lparr>n_index := int32 (n_index n + d)\<rparr>) (?h a) else ?h a)
     = (\<lambda>a. if a \<in> set (b # bs) then map_option (\<lambda>n. n\<lparr>n_index := int32 (n_index n + d)\<rparr>) (h a) else h a)"
    using Cons.prems(1) n by (auto simp add: fun_eq_iff)
  ultimately show ?case
    using n by (subst Node_shift.simps) simp
qed

lemma ring_nth_eq:
  "ring h as xs \<Longrightarrow> j < length as \<Longrightarrow> k < length as \<Longrightarrow> (as ! j = as ! k) = (j = k)"
  by (simp add: ring_def nth_eq_iff_index_eq)

lemma ring_nth_in_drop:
  assumes "ring h as xs" "j < length as"
  shows "(as ! j \<in> set (drop m as)) = (m \<le> j)"
proof
  assume "as ! j \<in> set (drop m as)"
  then obtain k where k: "k < length as - m" "as ! j = drop m as ! k"
    by (auto simp add: in_set_conv_nth)
  then have "as ! j = as ! (m + k)" by simp
  with assms k have "j = m + k" by (simp add: ring_nth_eq)
  then show "m \<le> j" by simp
next
  assume "m \<le> j"
  with assms have "as ! j = drop m as ! (j - m)" "j - m < length (drop m as)" by simp_all
  then show "as ! j \<in> set (drop m as)" by (metis nth_mem)
qed

lemma ring_walk_from:
  assumes r: "ring h as xs" and m: "0 < m" "m \<le> length as"
    and z: "\<exists>nz. h' z = Some nz \<and> n_index nz = 0" "z \<notin> set (drop m as)"
    and same: "\<forall>k<length as. m \<le> k \<longrightarrow> (\<exists>n. h' (as ! k) = Some n \<and> n_index n = int k
                 \<and> n_next n = (if Suc k = length as then z else as ! Suc k))"
  shows "Node_shift d h' (if m = length as then z else as ! m) =
     Some (\<lambda>a. if a \<in> set (drop m as) then map_option (\<lambda>n. n\<lparr>n_index := int32 (n_index n + d)\<rparr>) (h' a) else h' a)"
proof -
  have "Node_shift d h' (hd (drop m as @ [z])) =
     Some (\<lambda>a. if a \<in> set (drop m as) then map_option (\<lambda>n. n\<lparr>n_index := int32 (n_index n + d)\<rparr>) (h' a) else h' a)"
  proof (rule Node_shift_walk)
    show "distinct (drop m as)" using r by (simp add: ring_def)
    show "z \<notin> set (drop m as)" by (rule z)
    show "\<exists>nz. h' z = Some nz \<and> n_index nz = 0" by (rule z)
    show "\<forall>k<length (drop m as). \<exists>n. h' (drop m as ! k) = Some n \<and> n_index n \<noteq> 0 \<and>
            n_next n = (drop m as @ [z]) ! Suc k"
    proof (intro allI impI)
      fix k assume k: "k < length (drop m as)"
      then have mk: "m + k < length as" by simp
      with same obtain n where n: "h' (as ! (m + k)) = Some n" "n_index n = int (m + k)"
        "n_next n = (if Suc (m + k) = length as then z else as ! Suc (m + k))" by force
      have "(drop m as @ [z]) ! Suc k = (if Suc (m + k) = length as then z else as ! Suc (m + k))"
        using mk by (auto simp add: nth_append)
      with n m mk show "\<exists>n. h' (drop m as ! k) = Some n \<and> n_index n \<noteq> 0 \<and>
            n_next n = (drop m as @ [z]) ! Suc k" by simp
    qed
  qed
  moreover have "hd (drop m as @ [z]) = (if m = length as then z else as ! m)"
    using m by (simp add: hd_append hd_drop_conv_nth)
  ultimately show ?thesis by simp
qed

section \<open>Removing a node\<close>

lemma Node_delete_ring:
  assumes r: "ring h as xs" and i: "i < length as" and bound: "length as \<le> 2147483648"
  shows "\<exists>h'. Node_delete (as ! i) h = Some h' \<and>
           ring h' (take i as @ drop (Suc i) as) (take i xs @ drop (Suc i) xs) \<and>
           (\<forall>a. a \<notin> set as \<longrightarrow> h' a = h a)"
proof -
  define n where "n = length as"
  have len: "length xs = n" and d: "distinct as"
    using r by (simp_all add: ring_def n_def)
  have i': "i < n" using i by (simp add: n_def)
  define sc where "sc = (if Suc i = n then 0 else Suc i)"
  define pr where "pr = (if i = 0 then n - 1 else i - 1)"
  have sc: "sc < n" and pr: "pr < n" using i' by (auto simp add: sc_def pr_def)
  define h1 where "h1 = (\<lambda>a. if a \<in> set (drop (Suc i) as)
       then map_option (\<lambda>n. n\<lparr>n_index := int32 (n_index n + (- 1))\<rparr>) (h a) else h a)"
  have node: "\<And>k. k < n \<Longrightarrow> h (as ! k) = Some (ring_node as xs k)"
    using r by (simp add: ring_def n_def)
  have eq: "\<And>j k. j < n \<Longrightarrow> k < n \<Longrightarrow> (as ! j = as ! k) = (j = k)"
    using r by (simp add: ring_nth_eq n_def)
  have indrop: "\<And>j. j < n \<Longrightarrow> (as ! j \<in> set (drop (Suc i) as)) = (Suc i \<le> j)"
    using r by (simp add: ring_nth_in_drop n_def)
  have walk: "Node_shift (- 1) h (if Suc i = length as then as ! 0 else as ! Suc i) = Some h1"
    unfolding h1_def
  proof (rule ring_walk_from [OF r])
    show "0 < Suc i" "Suc i \<le> length as" using i by simp_all
    show "\<exists>nz. h (as ! 0) = Some nz \<and> n_index nz = 0"
      using node [of 0] i' by (simp add: ring_node_def)
    show "as ! 0 \<notin> set (drop (Suc i) as)" using indrop [of 0] i' by simp
    show "\<forall>k<length as. Suc i \<le> k \<longrightarrow> (\<exists>n. h (as ! k) = Some n \<and> n_index n = int k \<and>
            n_next n = (if Suc k = length as then as ! 0 else as ! Suc k))"
      using node by (simp add: ring_node_def n_def)
  qed
  have walk': "Node_shift (- 1) h (as ! sc) = Some h1"
    using walk by (auto simp add: sc_def n_def split: if_splits)
  have h1: "\<And>k. k < n \<Longrightarrow> h1 (as ! k) =
      Some ((ring_node as xs k)\<lparr>n_index := (if Suc i \<le> k then int k - 1 else int k)\<rparr>)"
    using bound by (auto simp add: h1_def indrop node ring_node_def n_def intro!: int32_id)
  have nxt: "n_next (ring_node as xs i) = as ! sc" and prv: "n_prev (ring_node as xs i) = as ! pr"
    by (simp_all add: ring_node_def sc_def pr_def n_def)
  obtain x0 where x0: "h1 (as ! sc) = Some x0" using h1 [OF sc] by simp
  define h2 where "h2 = h1(as ! sc \<mapsto> x0\<lparr>n_prev := as ! pr\<rparr>)"
  obtain p0 where p0: "h2 (as ! pr) = Some p0" using h1 [OF pr] by (cases "as ! pr = as ! sc") (simp_all add: h2_def)
  define h' where "h' = (h2(as ! pr \<mapsto> p0\<lparr>n_next := as ! sc\<rparr>))(as ! i := None)"
  have del: "Node_delete (as ! i) h = Some h'"
    using i' h1 [OF i']
    by (simp add: Node_delete_def node walk' nxt prv x0 p0 [unfolded h2_def] h'_def h2_def
        del: fun_upd_apply)
  have x0': "x0 = (ring_node as xs sc)\<lparr>n_index := (if Suc i \<le> sc then int sc - 1 else int sc)\<rparr>"
    using x0 h1 [OF sc] by simp
  have p0': "p0 = (if pr = sc then x0\<lparr>n_prev := as ! pr\<rparr>
       else (ring_node as xs pr)\<lparr>n_index := (if Suc i \<le> pr then int pr - 1 else int pr)\<rparr>)"
    using p0 h1 [OF pr] eq [OF pr sc] by (simp add: h2_def split: if_splits)
  have old: "\<And>j. j < n \<Longrightarrow> j \<noteq> i \<Longrightarrow> h' (as ! j) =
      Some \<lparr>n_prev = (if j = sc then as ! pr else as ! (if j = 0 then n - 1 else j - 1)),
            n_next = (if j = pr then as ! sc else as ! (if Suc j = n then 0 else Suc j)),
            n_index = (if Suc i \<le> j then int j - 1 else int j),
            n_element = xs ! j\<rparr>"
    using i' sc pr
    by (simp add: h'_def h2_def eq h1 x0' p0' ring_node_def n_def [symmetric])
  define as' where "as' = take i as @ drop (Suc i) as"
  define xs' where "xs' = take i xs @ drop (Suc i) xs"
  have las: "length as' = n - 1" and lxs: "length xs' = n - 1"
    using i' len by (simp_all add: as'_def xs'_def n_def [symmetric])
  have nth_as: "\<And>k. k < n - 1 \<Longrightarrow> as' ! k = as ! (if k < i then k else Suc k)"
    using i' by (simp add: as'_def nth_append n_def [symmetric] min_def)
  have nth_xs: "\<And>k. k < n - 1 \<Longrightarrow> xs' ! k = xs ! (if k < i then k else Suc k)"
    using i' len by (simp add: xs'_def nth_append min_def)
  have dist: "distinct as'"
    using d set_take_disj_set_drop_if_distinct [OF d, of i "Suc i"] by (simp add: as'_def)
  have cells: "\<forall>k<length as'. h' (as' ! k) = Some (ring_node as' xs' k)"
  proof (intro allI impI)
    fix k assume "k < length as'"
    then have k: "k < n - 1" by (simp add: las)
    show "h' (as' ! k) = Some (ring_node as' xs' k)"
    proof (cases "k < i")
      case True
      then show ?thesis
        using k i' old [of k]
        by (auto simp add: nth_as nth_xs ring_node_def las sc_def pr_def
            intro: arg_cong [of _ _ "\<lambda>m. as ! m"])
    next
      case False
      then show ?thesis
        using k i' old [of "Suc k"]
        by (auto simp add: nth_as nth_xs ring_node_def las sc_def pr_def
            intro: arg_cong [of _ _ "\<lambda>m. as ! m"])
    qed
  qed
  have frame: "\<forall>a. a \<notin> set as \<longrightarrow> h' a = h a"
  proof (intro allI impI)
    fix a assume a: "a \<notin> set as"
    then have "a \<noteq> as ! i" "a \<noteq> as ! sc" "a \<noteq> as ! pr" "a \<notin> set (drop (Suc i) as)"
      using i' sc pr by (auto simp add: n_def dest: in_set_dropD)
    then show "h' a = h a" by (simp add: h'_def h2_def h1_def)
  qed
  have "ring h' as' xs'"
    using dist cells by (simp add: ring_def las lxs)
  with del frame show ?thesis by (auto simp add: as'_def xs'_def)
qed

lemma removeNode_inv:
  assumes inv: "list_inv l as xs" and i: "i < length as"
  shows "\<exists>l'. removeNode (Ptr (as ! i)) l = Some (True, l') \<and>
           list_inv l' (take i as @ drop (Suc i) as) (take i xs @ drop (Suc i) xs) \<and>
           l_count l' = l_count l + 1 \<and> l_illegal l' = l_illegal l \<and>
           l_isConstructed l' = l_isConstructed l \<and> brk l' = brk l"
proof -
  from i have ne: "as \<noteq> []" by auto
  from inv ne have r: "ring (heap l) as xs" and la: "l_last l = Ptr (last as)"
    and fresh: "\<forall>a\<in>set as. a < brk l" and c: "l_isConstructed l"
    and bound: "length as \<le> 2147483648"
    by (simp_all add: list_inv_def list_wf_def)
  have wf: "list_wf l as xs" by (rule list_inv_wf [OF inv])
  have len: "getLength l = Some (if length as = 2147483648 then - 2147483648 else int (length as))"
    using bound by (simp add: getLength_wf [OF wf] int32_length)
  from Node_delete_ring [OF r i bound] obtain h' where
    del: "Node_delete (as ! i) (heap l) = Some h'" and
    r': "ring h' (take i as @ drop (Suc i) as) (take i xs @ drop (Suc i) xs)"
    by blast
  define nl where "nl = (if take i as @ drop (Suc i) as = [] then NULL
                          else Ptr (last (take i as @ drop (Suc i) as)))"
  define l1 where "l1 = l\<lparr>l_last := nl\<rparr>"
  have last_eq: "(as ! i = last as) = (Suc i = length as)"
    using ring_nth_eq [OF r i, of "length as - 1"] ne i by (auto simp add: last_conv_nth)
  have step1: "(if Ptr (as ! i) = l_last l
               then do {
                 len \<leftarrow> getLength l;
                 if len = 1 then Some (l\<lparr>l_last := NULL\<rparr>)
                 else do { p \<leftarrow> Node_getPrevious (heap l) (l_last l); Some (l\<lparr>l_last := p\<rparr>) }
               }
               else Some l) = Some l1"
  proof (cases "Suc i = length as")
    case False
    then have "drop (Suc i) as \<noteq> []" using i by simp
    then have "nl = Ptr (last as)" using i by (simp add: nl_def)
    then show ?thesis using False la last_eq by (simp add: l1_def)
  next
    case True
    have ta: "take i as @ drop (Suc i) as = butlast as"
    proof -
      have "i = length as - 1" using True by simp
      then show ?thesis by (simp add: butlast_conv_take)
    qed
    show ?thesis
    proof (cases "length as = 1")
      case True
      then have "nl = NULL" using ta by (cases as) (simp_all add: nl_def)
      then show ?thesis
        using True \<open>Suc i = length as\<close> la last_eq by (simp add: l1_def len)
    next
      case False
      moreover have "length as \<noteq> 0" using ne by simp
      ultimately have l2: "2 \<le> length as" by arith
      then have "length (butlast as) \<noteq> 0" by simp
      then have "butlast as \<noteq> []" by fastforce
      moreover have "last (butlast as) = as ! (length as - 1 - 1)"
        using l2 by (simp add: last_conv_nth nth_butlast \<open>butlast as \<noteq> []\<close>)
      ultimately have "nl = Ptr (as ! (length as - 1 - 1))" by (simp add: nl_def ta)
      moreover have "Node_getPrevious (heap l) (Ptr (as ! (length as - 1))) =
            Some (Ptr (as ! (length as - 1 - 1)))"
        using Node_getPrevious_ring [OF r, of "length as - 1"] l2 by simp
      ultimately show ?thesis
        using False \<open>Suc i = length as\<close> la last_eq ne l2
        by (simp add: l1_def len last_conv_nth)
    qed
  qed
  define l' where "l' = l1\<lparr>heap := h', l_count := l_count l + 1\<rparr>"
  have "removeNode (Ptr (as ! i)) l = Some (True, l')"
    by (simp add: removeNode_def step1 delete_Node_def l1_def del l'_def)
  moreover have "list_inv l' (take i as @ drop (Suc i) as) (take i xs @ drop (Suc i) xs)"
    using r' fresh c bound
    by (auto simp add: list_inv_def list_wf_def l'_def l1_def nl_def dest: in_set_takeD in_set_dropD)
  ultimately show ?thesis by (simp add: l'_def l1_def)
qed

section \<open>Inserting a node\<close>

lemma int32_int_Suc: "k < 2147483647 \<Longrightarrow> int32 (int k + 1) = int k + 1"
  by (simp add: int32_def)


lemma Node_insertAfter_ring:
  assumes r: "ring h as xs" and j: "j < length as"
    and fresh: "a \<notin> set as" and ha: "h a = Some (Node_new a e)"
    and bound: "length as \<le> 2147483647"
  shows "\<exists>h'. Node_insertAfter (as ! j) a h = Some h' \<and>
           ring h' (take (Suc j) as @ a # drop (Suc j) as) (take (Suc j) xs @ e # drop (Suc j) xs)"
proof -
  define n where "n = length as"
  define i where "i = Suc j"
  have len: "length xs = n" and d: "distinct as"
    using r by (simp_all add: ring_def n_def)
  have i': "j < n" "i \<le> n" using j by (simp_all add: n_def i_def)
  define sc where "sc = (if i = n then 0 else i)"
  have sc: "sc < n" using i' by (auto simp add: sc_def)
  have node: "\<And>k. k < n \<Longrightarrow> h (as ! k) = Some (ring_node as xs k)"
    using r by (simp add: ring_def n_def)
  have eq: "\<And>j k. j < n \<Longrightarrow> k < n \<Longrightarrow> (as ! j = as ! k) = (j = k)"
    using r by (simp add: ring_nth_eq n_def)
  have neq: "\<And>k. k < n \<Longrightarrow> as ! k \<noteq> a" "\<And>k. k < n \<Longrightarrow> a \<noteq> as ! k"
    using fresh by (auto simp add: n_def)
  have indrop: "\<And>k. k < n \<Longrightarrow> (as ! k \<in> set (drop i as)) = (i \<le> k)"
    using r by (simp add: ring_nth_in_drop n_def)
  have nxt: "n_next (ring_node as xs j) = as ! sc"
    and idx: "int32 (n_index (ring_node as xs j) + 1) = int i"
    using i' bound by (auto simp add: ring_node_def sc_def n_def i_def int32_int_Suc)
  define na where "na = \<lparr>n_prev = as ! j, n_next = as ! sc, n_index = int i, n_element = e\<rparr>"
  define h1 where "h1 = h(a \<mapsto> na)"
  define h2 where "h2 = h1(as ! sc \<mapsto> (ring_node as xs sc)\<lparr>n_prev := a\<rparr>)"
  obtain s2 where s2: "h2 (as ! j) = Some s2"
    using i' sc by (cases "as ! j = as ! sc") (simp_all add: h2_def h1_def neq node)
  define h3 where "h3 = h2(as ! j \<mapsto> s2\<lparr>n_next := a\<rparr>)"
  define h' where "h' = (\<lambda>b. if b \<in> set (drop i as)
       then map_option (\<lambda>n. n\<lparr>n_index := int32 (n_index n + 1)\<rparr>) (h3 b) else h3 b)"
  have s2': "s2 = (if sc = j then (ring_node as xs sc)\<lparr>n_prev := a\<rparr> else ring_node as xs j)"
    using s2 i' sc by (auto simp add: h2_def h1_def neq node eq split: if_splits)
  have h3: "\<And>k. k < n \<Longrightarrow> h3 (as ! k) =
      Some \<lparr>n_prev = (if k = sc then a else as ! (if k = 0 then n - 1 else k - 1)),
            n_next = (if k = j then a else as ! (if Suc k = n then 0 else Suc k)),
            n_index = int k, n_element = xs ! k\<rparr>"
    using i' sc by (simp add: h3_def h2_def h1_def s2' eq neq node ring_node_def n_def [symmetric])
  have h3a: "h3 a = Some na"
    using i' sc by (simp add: h3_def h2_def h1_def neq)
  have walk: "Node_shift 1 h3 (if i = length as then as ! 0 else as ! i) = Some h'"
    unfolding h'_def
  proof (rule ring_walk_from [OF r])
    show "0 < i" "i \<le> length as" using j by (simp_all add: i_def)
    show "\<exists>nz. h3 (as ! 0) = Some nz \<and> n_index nz = 0"
      using h3 [of 0] i' by simp
    show "as ! 0 \<notin> set (drop i as)" using indrop [of 0] i' by (simp add: i_def)
    show "\<forall>k<length as. i \<le> k \<longrightarrow> (\<exists>n. h3 (as ! k) = Some n \<and> n_index n = int k \<and>
            n_next n = (if Suc k = length as then as ! 0 else as ! Suc k))"
    proof (intro allI impI)
      fix k assume k: "k < length as" "i \<le> k"
      then have "k < n" "k \<noteq> j" using i' by (simp_all add: n_def i_def)
      then show "\<exists>n. h3 (as ! k) = Some n \<and> n_index n = int k \<and>
            n_next n = (if Suc k = length as then as ! 0 else as ! Suc k)"
        using h3 [of k] by (simp add: n_def)
    qed
  qed
  have walk': "Node_shift 1 h3 (as ! sc) = Some h'"
    using walk by (auto simp add: sc_def n_def split: if_splits)
  have x: "h1 (as ! sc) = Some (ring_node as xs sc)"
    using sc by (simp add: h1_def neq node)
  have ins: "Node_insertAfter (as ! j) a h = Some h'"
    using i'
    by (simp add: Node_insertAfter_def node ha nxt idx Node_new_def na_def [symmetric]
        h1_def [symmetric] x h2_def [symmetric] s2 h3_def [symmetric] walk'
        del: fun_upd_apply)
  define as' where "as' = take i as @ a # drop i as"
  define xs' where "xs' = take i xs @ e # drop i xs"
  have las: "length as' = Suc n" and lxs: "length xs' = Suc n"
    using i' len by (simp_all add: as'_def xs'_def n_def [symmetric])
  have nth_as: "\<And>k. k < Suc n \<Longrightarrow> as' ! k = (if k < i then as ! k else if k = i then a else as ! (k - 1))"
    using i' by (auto simp add: as'_def nth_append n_def [symmetric] min_def nth_Cons')
  have nth_xs: "\<And>k. k < Suc n \<Longrightarrow> xs' ! k = (if k < i then xs ! k else if k = i then e else xs ! (k - 1))"
    using i' len by (auto simp add: xs'_def nth_append min_def nth_Cons')
  have dist: "distinct as'"
    using d fresh set_take_disj_set_drop_if_distinct [OF d, of i i]
    by (auto simp add: as'_def dest: in_set_takeD in_set_dropD)
  have old: "\<And>k. k < n \<Longrightarrow> h' (as ! k) =
      Some \<lparr>n_prev = (if k = sc then a else as ! (if k = 0 then n - 1 else k - 1)),
            n_next = (if k = j then a else as ! (if Suc k = n then 0 else Suc k)),
            n_index = (if i \<le> k then int k + 1 else int k), n_element = xs ! k\<rparr>"
    using bound by (auto simp add: h'_def indrop h3 n_def int32_int_Suc)
  have new: "h' a = Some na"
    using fresh by (auto simp add: h'_def h3a dest: in_set_dropD)
  have cells: "\<forall>k<length as'. h' (as' ! k) = Some (ring_node as' xs' k)"
  proof (intro allI impI)
    fix k assume "k < length as'"
    then have k: "k < Suc n" by (simp add: las)
    consider "k < i" | "k = i" | "i < k" by arith
    then show "h' (as' ! k) = Some (ring_node as' xs' k)"
    proof cases
      case 1
      then show ?thesis
        using k i' old [of k]
        by (auto simp add: nth_as nth_xs ring_node_def las sc_def i_def
            intro: arg_cong [of _ _ "\<lambda>m. as ! m"])
    next
      case 2
      then show ?thesis
        using k i' new
        by (auto simp add: nth_as nth_xs ring_node_def las sc_def i_def na_def
            intro: arg_cong [of _ _ "\<lambda>m. as ! m"])
    next
      case 3
      then show ?thesis
        using k i' old [of "k - 1"]
        by (auto simp add: nth_as nth_xs ring_node_def las sc_def i_def
            intro: arg_cong [of _ _ "\<lambda>m. as ! m"])
    qed
  qed
  have "ring h' as' xs'"
    using dist cells by (simp add: ring_def las lxs)
  with ins show ?thesis by (auto simp add: as'_def xs'_def i_def)
qed

lemma Node_insertBefore_ring:
  assumes r: "ring h as xs" and ne: "as \<noteq> []"
    and fresh: "a \<notin> set as" and ha: "h a = Some (Node_new a e)"
    and bound: "length as \<le> 2147483647"
  shows "\<exists>h'. Node_insertBefore (as ! 0) a h = Some h' \<and> ring h' (a # as) (e # xs)"
proof -
  define n where "n = length as"
  have len: "length xs = n" and d: "distinct as"
    using r by (simp_all add: ring_def n_def)
  have n: "0 < n" using ne by (simp add: n_def)
  define pr where "pr = n - 1"
  have pr: "pr < n" using n by (simp add: pr_def)
  have node: "\<And>k. k < n \<Longrightarrow> h (as ! k) = Some (ring_node as xs k)"
    using r by (simp add: ring_def n_def)
  have eq: "\<And>j k. j < n \<Longrightarrow> k < n \<Longrightarrow> (as ! j = as ! k) = (j = k)"
    using r by (simp add: ring_nth_eq n_def)
  have neq: "\<And>k. k < n \<Longrightarrow> as ! k \<noteq> a" "\<And>k. k < n \<Longrightarrow> a \<noteq> as ! k"
    using fresh by (auto simp add: n_def)
  have indrop: "\<And>k. k < n \<Longrightarrow> (as ! k \<in> set (drop (Suc 0) as)) = (Suc 0 \<le> k)"
    using r ring_nth_in_drop [OF r, of _ "Suc 0"] by (simp add: n_def)
  have prv: "n_prev (ring_node as xs 0) = as ! pr"
    and idx: "n_index (ring_node as xs 0) = 0"
    by (auto simp add: ring_node_def pr_def n_def)
  define na where "na = \<lparr>n_prev = as ! pr, n_next = as ! 0, n_index = 0, n_element = e\<rparr>"
  define h1 where "h1 = h(a \<mapsto> na)"
  define h2 where "h2 = h1(as ! pr \<mapsto> (ring_node as xs pr)\<lparr>n_next := a\<rparr>)"
  obtain s2 where s2: "h2 (as ! 0) = Some s2"
    using n pr by (cases "as ! 0 = as ! pr") (simp_all add: h2_def h1_def neq node)
  define h3 where "h3 = h2(as ! 0 \<mapsto> s2\<lparr>n_prev := a, n_index := int32 (n_index s2 + 1)\<rparr>)"
  define h' where "h' = (\<lambda>b. if b \<in> set (drop (Suc 0) as)
       then map_option (\<lambda>n. n\<lparr>n_index := int32 (n_index n + 1)\<rparr>) (h3 b) else h3 b)"
  have s2': "s2 = (if pr = 0 then (ring_node as xs pr)\<lparr>n_next := a\<rparr> else ring_node as xs 0)"
    using s2 n pr by (auto simp add: h2_def h1_def neq node eq split: if_splits)
  have h3: "\<And>k. k < n \<Longrightarrow> h3 (as ! k) =
      Some \<lparr>n_prev = (if k = 0 then a else as ! (k - 1)),
            n_next = (if Suc k = n then a else as ! Suc k),
            n_index = (if k = 0 then 1 else int k), n_element = xs ! k\<rparr>"
    using n pr by (auto simp add: h3_def h2_def h1_def s2' eq neq node ring_node_def n_def [symmetric] pr_def int32_def)
  have h3a: "h3 a = Some na"
    using n pr by (simp add: h3_def h2_def h1_def neq)
  define nx where "nx = (if Suc 0 = length as then a else as ! Suc 0)"
  have walk: "Node_shift 1 h3 nx = Some h'"
    unfolding h'_def nx_def
  proof (rule ring_walk_from [OF r])
    show "0 < Suc 0" by simp
    show "Suc 0 \<le> length as" using n unfolding n_def by linarith
    show "\<exists>nz. h3 a = Some nz \<and> n_index nz = 0"
      using h3a by (simp add: na_def)
    show "a \<notin> set (drop (Suc 0) as)" using fresh by (auto dest: in_set_dropD)
    show "\<forall>k<length as. Suc 0 \<le> k \<longrightarrow> (\<exists>n. h3 (as ! k) = Some n \<and> n_index n = int k \<and>
            n_next n = (if Suc k = length as then a else as ! Suc k))"
    proof (intro allI impI)
      fix k assume k: "k < length as" "Suc 0 \<le> k"
      then have "k < n" "k \<noteq> 0" by (simp_all add: n_def)
      then show "\<exists>n. h3 (as ! k) = Some n \<and> n_index n = int k \<and>
            n_next n = (if Suc k = length as then a else as ! Suc k)"
        using h3 [of k] by (simp add: n_def)
    qed
  qed
  have s2n: "n_next s2 = nx"
    using n by (cases as) (auto simp add: s2' ring_node_def pr_def n_def nx_def)
  have p: "h1 (as ! pr) = Some (ring_node as xs pr)"
    using pr by (simp add: h1_def neq node)
  have ins: "Node_insertBefore (as ! 0) a h = Some h'"
    using n
    by (simp add: Node_insertBefore_def node ha prv idx Node_new_def na_def [symmetric]
        h1_def [symmetric] p h2_def [symmetric] s2 h3_def [symmetric] s2n walk
        del: fun_upd_apply)
  have old: "\<And>k. k < n \<Longrightarrow> h' (as ! k) =
      Some \<lparr>n_prev = (if k = 0 then a else as ! (k - 1)),
            n_next = (if Suc k = n then a else as ! Suc k),
            n_index = int k + 1, n_element = xs ! k\<rparr>"
    using bound by (auto simp add: h'_def indrop h3 n_def int32_int_Suc)
  have new: "h' a = Some na"
    using fresh by (auto simp add: h'_def h3a dest: in_set_dropD)
  have cells: "\<forall>k<length (a # as). h' ((a # as) ! k) = Some (ring_node (a # as) (e # xs) k)"
  proof (intro allI impI)
    fix k assume "k < length (a # as)"
    then have k: "k < Suc n" by (simp add: n_def)
    show "h' ((a # as) ! k) = Some (ring_node (a # as) (e # xs) k)"
    proof (cases k)
      case 0
      then show ?thesis
        using n new by (auto simp add: ring_node_def na_def pr_def n_def)
    next
      case (Suc m)
      then show ?thesis
        using k n old [of m]
        by (auto simp add: ring_node_def n_def)
    qed
  qed
  have "ring h' (a # as) (e # xs)"
    using d fresh len cells by (simp add: ring_def n_def)
  with ins show ?thesis by auto
qed

lemma ring_frame:
  "ring h as xs \<Longrightarrow> (\<forall>a\<in>set as. h' a = h a) \<Longrightarrow> ring h' as xs"
  by (simp add: ring_def)

lemma addNode_fail:
  assumes "list_inv l as xs" and "i < 0 \<or> int32 (int (length as)) < i \<or> \<not> alloc"
  shows "addNode alloc i e l = Some (False, l)"
  using assms
  by (auto simp add: addNode_def isIndexOutOfBounds_wf [OF list_inv_wf] new_Node_def)

lemma addNode_inv:
  assumes inv: "list_inv l as xs" and c: "l_isConstructed l"
    and i: "0 \<le> i" "i \<le> int32 (int (length as))"
  shows "\<exists>l'. addNode True i e l = Some (True, l') \<and>
           list_inv l' (take (nat i) as @ brk l # drop (nat i) as)
                       (take (nat i) xs @ e # drop (nat i) xs) \<and>
           l_count l' = l_count l + 1 \<and> l_illegal l' = l_illegal l \<and>
           l_isConstructed l' = l_isConstructed l"
proof -
  define a where "a = brk l"
  define l1 where "l1 = l\<lparr>heap := (heap l)(a \<mapsto> Node_new a e), brk := a + 1\<rparr>"
  from inv have r: "ring (heap l) as xs" and fresh: "\<forall>b\<in>set as. b < a"
    and la: "l_last l = (if as = [] then NULL else Ptr (last as))"
    and bound: "length as \<le> 2147483648"
    by (simp_all add: list_inv_def list_wf_def a_def)
  have small: "length as \<le> 2147483647" and n32: "int32 (int (length as)) = int (length as)"
    using bound i by (auto simp add: int32_length split: if_splits)
  have i': "i \<le> int (length as)" using i n32 by simp
  have an: "a \<notin> set as" using fresh by auto
  have fresh': "\<And>k. \<forall>b\<in>set (take k as @ a # drop k as). b < Suc a"
    using fresh by (auto dest!: in_set_takeD in_set_dropD intro: less_SucI)
  have r1: "ring (heap l1) as xs"
    using an by (intro ring_frame [OF r]) (auto simp add: l1_def)
  have wf1: "list_wf l1 as xs"
    using r1 la fresh bound by (auto simp add: list_wf_def l1_def)
  have ha: "heap l1 a = Some (Node_new a e)" by (simp add: l1_def)
  have new: "new_Node True e l = Some (a, l1)" by (simp add: new_Node_def l1_def a_def)
  have out: "isIndexOutOfBounds l i = Some False"
    using i by (simp add: isIndexOutOfBounds_wf [OF list_inv_wf [OF inv]])
  have len: "length xs = length as" using r by (simp add: ring_def)
  have cnt1: "l_count l1 = l_count l" and last1: "l_last l1 = l_last l" by (simp_all add: l1_def)
  show ?thesis
  proof (cases "as = []")
    case True
    then have i0: "i = 0" using i' i by simp
    define l' where "l' = l1\<lparr>l_last := Ptr a, l_count := l_count l1 + 1\<rparr>"
    have "addNode True i e l = Some (True, l')"
      using True la by (simp add: addNode_def out new l'_def last1)
    moreover have "ring (heap l') [a] [e]"
      by (simp add: ring_def l'_def l1_def ring_node_def Node_new_def)
    then have "list_inv l' [a] [e]"
      using c by (simp add: list_inv_def list_wf_def l'_def l1_def)
    ultimately show ?thesis
      using True len i0 by (simp add: l'_def l1_def a_def)
  next
    case False
    then have la1: "l_last l1 = Ptr (last as)" "l_last l1 \<noteq> NULL" using la by (simp_all add: l1_def)
    show ?thesis
    proof (cases "0 < i")
      case True
      define j where "j = nat (i - 1)"
      have j: "j < length as" "Suc j = nat i" "int j = i - 1" using True i' by (simp_all add: j_def)
      have im: "int32 (i - 1) = i - 1" using True i' small by (intro int32_id) simp_all
      have after: "getNodeByIndex l1 (int32 (i - 1)) = Some (Ptr (as ! j))"
        using True i' by (simp add: im getNodeByIndex_wf [OF wf1] n32 j_def)
      from Node_insertAfter_ring [OF r1 j(1) an ha small] obtain h' where
        ins: "Node_insertAfter (as ! j) a (heap l1) = Some h'" and
        r': "ring h' (take (Suc j) as @ a # drop (Suc j) as) (take (Suc j) xs @ e # drop (Suc j) xs)"
        by blast
      have last_eq: "(as ! j = last as) = (Suc j = length as)"
        using ring_nth_eq [OF r j(1), of "length as - 1"] False j(1) by (auto simp add: last_conv_nth)
      define l' where "l' = l1\<lparr>heap := h',
          l_last := (if Suc j = length as then Ptr a else Ptr (last as)), l_count := l_count l + 1\<rparr>"
      have "addNode True i e l = Some (True, l')"
        using True la1 last_eq
        by (simp add: addNode_def out new after ins l'_def cnt1 Let_def)
      moreover have "last (take (Suc j) as @ a # drop (Suc j) as) =
           (if Suc j = length as then a else last as)"
        using j(1) by simp
      then have "list_inv l' (take (Suc j) as @ a # drop (Suc j) as)
                             (take (Suc j) xs @ e # drop (Suc j) xs)"
        using r' fresh' [of "Suc j"] c small j(1)
        by (simp add: list_inv_def list_wf_def l'_def l1_def)
      ultimately show ?thesis
        by (auto simp add: j(2) l'_def l1_def a_def)
    next
      case False
      then have i0: "i = 0" using i by simp
      have before: "getNodeByIndex l1 0 = Some (Ptr (as ! 0))"
        using \<open>as \<noteq> []\<close> small by (simp add: getNodeByIndex_wf [OF wf1] int32_length)
      from Node_insertBefore_ring [OF r1 \<open>as \<noteq> []\<close> an ha small] obtain h' where
        ins: "Node_insertBefore (as ! 0) a (heap l1) = Some h'" and
        r': "ring h' (a # as) (e # xs)"
        by blast
      define l' where "l' = l1\<lparr>heap := h', l_count := l_count l + 1\<rparr>"
      have "addNode True i e l = Some (True, l')"
        using la1 by (simp add: i0 addNode_def out [unfolded i0] new before ins l'_def cnt1 Let_def)
      moreover have "list_inv l' (a # as) (e # xs)"
        using r' fresh' [of 0] c la \<open>as \<noteq> []\<close> small
        by (simp add: list_inv_def list_wf_def l'_def l1_def)
      ultimately show ?thesis
        using i0 by (auto simp add: l'_def l1_def a_def)
    qed
  qed
qed

section \<open>The public operations on a well-formed list\<close>

lemma add_at_inv:
  assumes inv: "list_inv l as xs"
  shows "\<exists>l'. add_at alloc i e l =
            Some (l_isConstructed l \<and> 0 \<le> i \<and> i \<le> int32 (int (length xs)) \<and> alloc, l') \<and>
           (if l_isConstructed l \<and> 0 \<le> i \<and> i \<le> int32 (int (length xs)) \<and> alloc
            then list_inv l' (take (nat i) as @ brk l # drop (nat i) as)
                             (take (nat i) xs @ e # drop (nat i) xs) \<and>
                 l_count l' = l_count l + 1 \<and> l_illegal l' = l_illegal l \<and>
                 l_isConstructed l' = l_isConstructed l
            else l' = l)"
proof -
  have len: "length xs = length as" using inv by (simp add: list_inv_length)
  show ?thesis
  proof (cases "l_isConstructed l \<and> 0 \<le> i \<and> i \<le> int32 (int (length xs)) \<and> alloc")
    case True
    with addNode_inv [OF inv, of i e] len show ?thesis
      by (auto simp add: add_at_def)
  next
    case False
    then show ?thesis
      using addNode_fail [OF inv, of i alloc e] len by (auto simp add: add_at_def)
  qed
qed

lemma add_inv:
  assumes inv: "list_inv l as xs"
  shows "\<exists>l'. add alloc e l = Some (l_isConstructed l \<and> alloc \<and> length xs \<le> 2147483647, l') \<and>
           (if l_isConstructed l \<and> alloc \<and> length xs \<le> 2147483647
            then list_inv l' (as @ [brk l]) (xs @ [e]) \<and>
                 l_count l' = l_count l + 1 \<and> l_illegal l' = l_illegal l \<and>
                 l_isConstructed l' = l_isConstructed l
            else l' = l)"
proof -
  have len: "length xs = length as" using inv by (simp add: list_inv_length)
  have bound: "length as \<le> 2147483648" using inv by (simp add: list_inv_def list_wf_def)
  have eq: "add alloc e l = add_at alloc (int32 (int (length as))) e l"
    by (simp add: add_def add_at_def getLength_wf [OF list_inv_wf [OF inv]])
  show ?thesis
  proof (cases "length xs \<le> 2147483647")
    case True
    then have "int32 (int (length as)) = int (length as)" using len by (simp add: int32_length)
    with eq add_at_inv [OF inv, of alloc "int (length as)" e] len True show ?thesis by auto
  next
    case False
    then have "int32 (int (length as)) = - 2147483648" using len bound by (simp add: int32_length)
    with eq add_at_inv [OF inv, of alloc "- 2147483648" e] len False show ?thesis by auto
  qed
qed

lemma remove_at_inv:
  assumes inv: "list_inv l as xs"
  shows "\<exists>l'. remove_at i l = Some (0 \<le> i \<and> i < int32 (int (length xs)), l') \<and>
           (if 0 \<le> i \<and> i < int32 (int (length xs))
            then list_inv l' (take (nat i) as @ drop (Suc (nat i)) as)
                             (take (nat i) xs @ drop (Suc (nat i)) xs) \<and>
                 l_count l' = l_count l + 1 \<and> l_illegal l' = l_illegal l \<and>
                 l_isConstructed l' = l_isConstructed l
            else l' = l)"
proof -
  have len: "length xs = length as" using inv by (simp add: list_inv_length)
  have bound: "length as \<le> 2147483648" using inv by (simp add: list_inv_def list_wf_def)
  note wf = list_inv_wf [OF inv]
  show ?thesis
  proof (cases "0 \<le> i \<and> i < int32 (int (length xs))")
    case True
    then have i: "nat i < length as"
      using len int32_length_pos [OF bound, of i] by auto
    then have "l_isConstructed l" using inv by (auto simp add: list_inv_def)
    with removeNode_inv [OF inv i] True len show ?thesis
      by (auto simp add: remove_at_def getNodeByIndex_wf [OF wf])
  next
    case False
    then show ?thesis
      using len by (auto simp add: remove_at_def getNodeByIndex_wf [OF wf] removeNode_def)
  qed
qed

lemma remove1_takeWhile:
  "e \<in> set xs \<Longrightarrow>
   take (length (takeWhile (\<lambda>x. x \<noteq> e) xs)) xs @ drop (Suc (length (takeWhile (\<lambda>x. x \<noteq> e) xs))) xs
   = remove1 e xs"
  by (induction xs) auto

lemma takeWhile_neq_less:
  "e \<in> set xs \<Longrightarrow> length (takeWhile (\<lambda>x. x \<noteq> e) xs) < length xs"
  by (induction xs) auto

lemma removeElement_inv:
  assumes inv: "list_inv l as xs"
  shows "\<exists>l' as'. removeElement e l = Some (length xs \<le> 2147483647 \<and> e \<in> set xs, l') \<and>
           (if length xs \<le> 2147483647 \<and> e \<in> set xs
            then list_inv l' as' (remove1 e xs) \<and>
                 l_count l' = l_count l + 1 \<and> l_illegal l' = l_illegal l \<and>
                 l_isConstructed l' = l_isConstructed l
            else l' = l)"
proof -
  have len: "length xs = length as" using inv by (simp add: list_inv_length)
  note wf = list_inv_wf [OF inv]
  define k where "k = length (takeWhile (\<lambda>x. x \<noteq> e) xs)"
  show ?thesis
  proof (cases "length xs \<le> 2147483647 \<and> e \<in> set xs")
    case True
    then have e: "e \<in> set xs" by simp
    have k: "k < length as" using takeWhile_neq_less [OF e] len
      by (simp add: k_def)
    then have "l_isConstructed l" using inv by (auto simp add: list_inv_def)
    with removeNode_inv [OF inv k] True remove1_takeWhile [OF e] len show ?thesis
      by (auto simp add: removeElement_def getNodeByElement_wf [OF wf] k_def)
  next
    case False
    then show ?thesis
      using len by (auto simp add: removeElement_def getNodeByElement_wf [OF wf] removeNode_def)
  qed
qed

section \<open>Sequences of calls on a well-formed list\<close>

lemma run_op_inv:
  assumes inv: "list_inv l as xs"
  shows "\<exists>b l' as' xs'. run_op c l = Some (b, l') \<and> list_inv l' as' xs' \<and>
           int (length xs') = int (length xs) + (if b then (if is_add c then 1 else - 1) else 0) \<and>
           l_count l' = (if b then l_count l + 1 else l_count l) \<and>
           (\<not> b \<longrightarrow> l' = l) \<and>
           l_isConstructed l' = l_isConstructed l \<and> l_illegal l' = l_illegal l"
proof -
  have len: "length as = length xs" by (rule list_inv_length [OF inv])
  have bound: "length as \<le> 2147483648" using inv by (simp add: list_inv_def list_wf_def)
  have rm: "\<And>i. \<exists>b l' as' xs'. remove_at i l = Some (b, l') \<and> list_inv l' as' xs' \<and>
           int (length xs') = int (length xs) + (if b then - 1 else 0) \<and>
           l_count l' = (if b then l_count l + 1 else l_count l) \<and>
           (\<not> b \<longrightarrow> l' = l) \<and>
           l_isConstructed l' = l_isConstructed l \<and> l_illegal l' = l_illegal l"
  proof -
    fix i
    from remove_at_inv [OF inv, of i] obtain l' where
      l': "remove_at i l = Some (0 \<le> i \<and> i < int32 (int (length xs)), l')"
      "if 0 \<le> i \<and> i < int32 (int (length xs))
            then list_inv l' (take (nat i) as @ drop (Suc (nat i)) as)
                             (take (nat i) xs @ drop (Suc (nat i)) xs) \<and>
                 l_count l' = l_count l + 1 \<and> l_illegal l' = l_illegal l \<and>
                 l_isConstructed l' = l_isConstructed l
            else l' = l" by blast
    show "\<exists>b l' as' xs'. remove_at i l = Some (b, l') \<and> list_inv l' as' xs' \<and>
           int (length xs') = int (length xs) + (if b then - 1 else 0) \<and>
           l_count l' = (if b then l_count l + 1 else l_count l) \<and>
           (\<not> b \<longrightarrow> l' = l) \<and>
           l_isConstructed l' = l_isConstructed l \<and> l_illegal l' = l_illegal l"
    proof (cases "0 \<le> i \<and> i < int32 (int (length xs))")
      case True
      then have "nat i < length xs" using int32_length_pos [OF bound, of i] len by auto
      then have "int (length (take (nat i) xs @ drop (Suc (nat i)) xs)) = int (length xs) - 1"
        by auto
      with True l' show ?thesis by (intro exI [of _ True] exI [of _ l'] exI) auto
    next
      case False
      with l' inv show ?thesis by (intro exI [of _ False] exI [of _ l] exI [of _ as] exI [of _ xs]) auto
    qed
  qed
  show ?thesis
  proof (cases c)
    case (Add alloc e)
    from add_inv [OF inv, of alloc e] obtain l' where
      l': "add alloc e l = Some (l_isConstructed l \<and> alloc \<and> length xs \<le> 2147483647, l')"
      "if l_isConstructed l \<and> alloc \<and> length xs \<le> 2147483647
            then list_inv l' (as @ [brk l]) (xs @ [e]) \<and>
                 l_count l' = l_count l + 1 \<and> l_illegal l' = l_illegal l \<and>
                 l_isConstructed l' = l_isConstructed l
            else l' = l" by blast
    show ?thesis
    proof (cases "l_isConstructed l \<and> alloc \<and> length xs \<le> 2147483647")
      case True
      with l' Add show ?thesis by (intro exI [of _ True] exI [of _ l'] exI) auto
    next
      case False
      with l' Add inv show ?thesis
        by (intro exI [of _ False] exI [of _ l] exI [of _ as] exI [of _ xs]) auto
    qed
  next
    case (AddAt alloc i e)
    from add_at_inv [OF inv, of alloc i e] obtain l' where
      l': "add_at alloc i e l = Some (l_isConstructed l \<and> 0 \<le> i \<and> i \<le> int32 (int (length xs)) \<and> alloc, l')"
      "if l_isConstructed l \<and> 0 \<le> i \<and> i \<le> int32 (int (length xs)) \<and> alloc
            then list_inv l' (take (nat i) as @ brk l # drop (nat i) as)
                             (take (nat i) xs @ e # drop (nat i) xs) \<and>
                 l_count l' = l_count l + 1 \<and> l_illegal l' = l_illegal l \<and>
                 l_isConstructed l' = l_isConstructed l
            else l' = l" by blast
    show ?thesis
    proof (cases "l_isConstructed l \<and> 0 \<le> i \<and> i \<le> int32 (int (length xs)) \<and> alloc")
      case True
      then have "nat i \<le> length xs" using bound len by (auto simp add: int32_length split: if_splits)
      then have "int (length (take (nat i) xs @ e # drop (nat i) xs)) = int (length xs) + 1"
        by auto
      with True l' AddAt show ?thesis by (intro exI [of _ True] exI [of _ l'] exI) auto
    next
      case False
      with l' AddAt inv show ?thesis
        by (intro exI [of _ False] exI [of _ l] exI [of _ as] exI [of _ xs]) auto
    qed
  next
    case (RemoveAt i)
    with rm [of i] show ?thesis by simp
  next
    case (RemoveElement e)
    from removeElement_inv [OF inv, of e] obtain l' as' where
      l': "removeElement e l = Some (length xs \<le> 2147483647 \<and> e \<in> set xs, l')"
      "if length xs \<le> 2147483647 \<and> e \<in> set xs
            then list_inv l' as' (remove1 e xs) \<and>
                 l_count l' = l_count l + 1 \<and> l_illegal l' = l_illegal l \<and>
                 l_isConstructed l' = l_isConstructed l
            else l' = l" by blast
    show ?thesis
    proof (cases "length xs \<le> 2147483647 \<and> e \<in> set xs")
      case True
      then have "0 < length xs" by (cases xs) auto
      moreover have "length (remove1 e xs) = length xs - 1"
        using True by (simp add: length_remove1)
      ultimately have "int (length (remove1 e xs)) = int (length xs) - 1"
        by arith
      with True l' RemoveElement show ?thesis by (intro exI [of _ True] exI [of _ l'] exI) auto
    next
      case False
      with l' RemoveElement inv show ?thesis
        by (intro exI [of _ False] exI [of _ l] exI [of _ as] exI [of _ xs]) auto
    qed
  next
    case RemoveFirst
    with rm [of 0] show ?thesis by (simp add: removeFirst_def)
  next
    case RemoveLast
    with rm [of "int32 (int32 (int (length as)) - 1)"] show ?thesis
      by (simp add: removeLast_def getLength_wf [OF list_inv_wf [OF inv]])
  next
    case RemoveHead
    with rm [of 0] show ?thesis by (simp add: remove_head_def)
  qed
qed


lemma run_ops_inv:
  "list_inv l as xs \<Longrightarrow>
   \<exists>bs l' as' xs'. run_ops cs l = Some (bs, l') \<and> length bs = length cs \<and>
      list_inv l' as' xs' \<and>
      int (length xs') = int (length xs) + int (successful True cs bs) - int (successful False cs bs) \<and>
      l_count l' = l_count l + of_nat (successful True cs bs + successful False cs bs) \<and>
      l_isConstructed l' = l_isConstructed l \<and> l_illegal l' = l_illegal l"
proof (induction cs arbitrary: l as xs)
  case Nil
  then show ?case by auto
next
  case (Cons c cs)
  from run_op_inv [OF Cons.prems, of c] obtain b l1 as1 xs1 where
    s1: "run_op c l = Some (b, l1)" "list_inv l1 as1 xs1"
      "int (length xs1) = int (length xs) + (if b then (if is_add c then 1 else - 1) else 0)"
      "l_count l1 = (if b then l_count l + 1 else l_count l)"
      "l_isConstructed l1 = l_isConstructed l" "l_illegal l1 = l_illegal l"
    by blast
  from Cons.IH [OF s1(2)] obtain bs l' as' xs' where
    s2: "run_ops cs l1 = Some (bs, l')" "length bs = length cs" "list_inv l' as' xs'"
      "int (length xs') = int (length xs1) + int (successful True cs bs) - int (successful False cs bs)"
      "l_count l' = l_count l1 + of_nat (successful True cs bs + successful False cs bs)"
      "l_isConstructed l' = l_isConstructed l1" "l_illegal l' = l_illegal l1"
    by blast
  have "run_ops (c # cs) l = Some (b # bs, l')" using s1(1) s2(1) by simp
  moreover have "int (length xs') =
      int (length xs) + int (successful True (c # cs) (b # bs)) - int (successful False (c # cs) (b # bs))"
    using s1(3) s2(4) by auto
  moreover have "l_count l' =
      l_count l + of_nat (successful True (c # cs) (b # bs) + successful False (c # cs) (b # bs))"
    using s1(4) s2(5) by auto
  ultimately show ?case using s1 s2 by (intro exI [of _ "b # bs"] exI [of _ l'] exI [of _ as'] exI [of _ xs']) simp
qed

lemma list_inv_LinkedList: "list_inv (LinkedList illegal) [] []"
  by (simp add: list_inv_def list_wf_def LinkedList_def ring_def)

text \<open>Every list that calls build from a constructed empty list is well formed.\<close>

lemma reachable_list_inv:
  "\<exists>bs l' as xs. run_ops cs (LinkedList illegal) = Some (bs, l') \<and> list_inv l' as xs"
  using run_ops_inv [OF list_inv_LinkedList, of cs illegal] by blast

section \<open>The example states are well formed\<close>

lemma duplicates_list_inv: "list_inv duplicates_list [0, 1, 2] [10, 20, 20]"
  by (simp add: list_inv_def list_wf_def ring_def ring_node_def duplicates_list_def All_less_Suc)

lemma example_list_inv: "list_inv example_list [0, 2, 1] [10, 15, 20]"
  by (simp add: list_inv_def list_wf_def ring_def ring_node_def example_list_def All_less_Suc)

lemma unconstructed_list_inv: "list_inv unconstructed_list [] []"
  by (simp add: list_inv_def list_wf_def ring_def unconstructed_list_def LinkedList_def)

lemma list_at_INT32_MAX_inv: "list_inv list_at_INT32_MAX [0] [7]"
  by (simp add: list_inv_def list_wf_def ring_def ring_node_def list_at_INT32_MAX_def)

lemma example_reached: "do {
     (b1, l1) \<leftarrow> add True 10 (LinkedList (- 1));
     (b2, l2) \<leftarrow> add True 20 l1;
     (b3, l3) \<leftarrow> add_at True 1 15 l2;
     Some (l_isConstructed l3, l_illegal l3, l_last l3, l_count l3, map (heap l3) [0, 1, 2, 3], brk l3)
  } = Some (l_isConstructed example_list, l_illegal example_list, l_last example_list,
       l_count example_list, map (heap example_list) [0, 1, 2, 3], brk example_list)"
  by code_simp

lemma example_iterator_reached:
  "getListIterator True 0 example_list = Some (Some example_iterator)"
  by (simp add: getListIterator_def Iterator_new_def Iterator_construct_def example_iterator_def
      isIndexOutOfBounds_wf [OF list_inv_wf [OF example_list_inv]]
      getNodeByIndex_wf [OF list_inv_wf [OF example_list_inv]]
      ILLEGAL_INDEX_def int32_def)
    (simp add: example_list_def)

text \<open>
  What the operations of an iterator that is not stale do, by the place of its cursor: at a
  node of the ring they are all defined; at the end (\<open>NULL\<close>) the forward operations are
  defined, and \<open>hasPrevious()\<close> is defined only when the list is empty.
\<close>

section \<open>The iterator over a well-formed list\<close>

text \<open>
  What the operations of an iterator that is not stale do, by the place of its cursor: at a
  node of the ring they are all defined; at the end (\<open>NULL\<close>) the forward operations are
  defined, and \<open>hasPrevious()\<close> is defined only when the list is empty.
\<close>

lemma Iterator_forward_inv:
  assumes inv: "list_inv l as xs" and v: "i_self it = l_count l"
    and c: "i_curs it = Ptr (as ! k)" and k: "k < length as"
  shows "Iterator_hasNext it l"
    and "Iterator_getNextIndex it l = Some (int k)"
    and "Iterator_getNext it l =
           Some (xs ! k, it\<lparr>i_curs := (if Suc k = length as then NULL else Ptr (as ! Suc k)),
                            i_rindex := int k\<rparr>)"
proof -
  from k have ne: "as \<noteq> []" by auto
  from inv ne have r: "ring (heap l) as xs" and la: "l_last l = Ptr (last as)"
    by (simp_all add: list_inv_def list_wf_def)
  have last_eq: "(as ! k = last as) = (Suc k = length as)"
    using ring_nth_eq [OF r k, of "length as - 1"] ne k by (auto simp add: last_conv_nth)
  show hn: "Iterator_hasNext it l" using v c by (simp add: Iterator_hasNext_def)
  show "Iterator_getNextIndex it l = Some (int k)"
    using hn c k by (simp add: Iterator_getNextIndex_def Node_getIndex_ring [OF r])
  show "Iterator_getNext it l =
           Some (xs ! k, it\<lparr>i_curs := (if Suc k = length as then NULL else Ptr (as ! Suc k)),
                            i_rindex := int k\<rparr>)"
    using hn c k la last_eq
    by (simp add: Iterator_getNext_def Node_getIndex_ring [OF r] Node_getElement_ring [OF r]
        Node_getNext_ring [OF r])
qed

lemma Iterator_backward_inv:
  assumes inv: "list_inv l as xs" and v: "i_self it = l_count l"
    and c: "i_curs it = Ptr (as ! k)" and k: "k < length as"
  shows "Iterator_hasPrevious it l = Some (0 < k)"
    and "Iterator_getPreviousIndex it l = Some (int k - 1)"
    and "Iterator_getPrevious it l =
           Some (if 0 < k
                 then (xs ! (k - 1), it\<lparr>i_curs := Ptr (as ! (k - 1)), i_rindex := int k - 1\<rparr>)
                 else (l_illegal l, it))"
proof -
  from k have ne: "as \<noteq> []" by auto
  from inv ne have r: "ring (heap l) as xs" and la: "l_last l = Ptr (last as)"
    by (simp_all add: list_inv_def list_wf_def)
  have eq: "\<And>j. j < length as \<Longrightarrow> (as ! j = last as) = (Suc j = length as)"
    using ring_nth_eq [OF r _, of _ "length as - 1"] ne by (auto simp add: last_conv_nth)
  have k1: "0 < k \<Longrightarrow> k - 1 < length as" "0 < k \<Longrightarrow> Suc (k - 1) \<noteq> length as"
    "0 < k \<Longrightarrow> int (k - 1) = int k - 1"
    using k by simp_all
  have prev: "Node_getPrevious (heap l) (Ptr (as ! k)) =
        Some (Ptr (if k = 0 then last as else as ! (k - 1)))"
    using k ne by (simp add: Node_getPrevious_ring [OF r] last_conv_nth)
  show hp: "Iterator_hasPrevious it l = Some (0 < k)"
    using v c la prev eq [of "k - 1"] k1 by (auto simp add: Iterator_hasPrevious_def)
  show "Iterator_getPreviousIndex it l = Some (int k - 1)"
    using c k prev k1 by (auto simp add: Iterator_getPreviousIndex_def hp Node_getIndex_ring [OF r])
  show "Iterator_getPrevious it l =
           Some (if 0 < k
                 then (xs ! (k - 1), it\<lparr>i_curs := Ptr (as ! (k - 1)), i_rindex := int k - 1\<rparr>)
                 else (l_illegal l, it))"
    using c k prev k1
    by (auto simp add: Iterator_getPrevious_def hp Node_getIndex_ring [OF r]
        Node_getElement_ring [OF r])
qed

lemma Iterator_at_end_inv:
  assumes inv: "list_inv l as xs" and v: "i_self it = l_count l" and c: "i_curs it = NULL"
  shows "\<not> Iterator_hasNext it l"
    and "Iterator_getNextIndex it l = Some (int32 (int (length as)))"
    and "Iterator_getNext it l = Some (l_illegal l, it)"
    and "Iterator_hasPrevious it l = (if as = [] then Some False else None)"
  using v c inv
  by (auto simp add: Iterator_hasNext_def Iterator_getNextIndex_def Iterator_getNext_def
      getLength_wf [OF list_inv_wf [OF inv]] Iterator_hasPrevious_def list_inv_def list_wf_def
      Node_getPrevious_def deref_def)

lemma Iterator_remove_inv:
  assumes inv: "list_inv l as xs" and v: "i_self it = l_count l"
    and c: "i_curs it = Ptr (as ! k)" and k: "k < length as"
    and ri: "i_rindex it = int r" and r: "r < length as"
    and small: "length as \<le> 2147483647"
  shows "\<exists>l'. Iterator_remove it l =
           Some (True,
                 it\<lparr>i_self := i_self it + 1, i_rindex := ILLEGAL_INDEX,
                    i_curs := (if k = r then (if Suc k = length as then NULL else Ptr (as ! Suc k))
                               else Ptr (as ! k))\<rparr>,
                 l') \<and>
           list_inv l' (take r as @ drop (Suc r) as) (take r xs @ drop (Suc r) xs) \<and>
           l_count l' = i_self it + 1"
proof -
  from k have ne: "as \<noteq> []" by auto
  from inv ne have rg: "ring (heap l) as xs" and la: "l_last l = Ptr (last as)"
    by (simp_all add: list_inv_def list_wf_def)
  have len: "length as = length xs" by (rule list_inv_length [OF inv])
  have last_eq: "(as ! k = last as) = (Suc k = length as)"
    using ring_nth_eq [OF rg k, of "length as - 1"] ne k by (auto simp add: last_conv_nth)
  have "int32 (int (length xs)) = int (length xs)" using small len by (simp add: int32_length)
  with remove_at_inv [OF inv, of "int r"] r len obtain l' where
    l': "remove_at (int r) l = Some (True, l')"
      "list_inv l' (take r as @ drop (Suc r) as) (take r xs @ drop (Suc r) xs)"
      "l_count l' = l_count l + 1"
    by auto
  have "Iterator_remove it l =
           Some (True,
                 it\<lparr>i_self := i_self it + 1, i_rindex := ILLEGAL_INDEX,
                    i_curs := (if k = r then (if Suc k = length as then NULL else Ptr (as ! Suc k))
                               else Ptr (as ! k))\<rparr>,
                 l')"
    using v c k ri la last_eq l'(1)
    by (auto simp add: Iterator_remove_def ILLEGAL_INDEX_def Node_getIndex_ring [OF rg]
        Node_getNext_ring [OF rg])
  with l' v show ?thesis by simp
qed

section \<open>The change counter as a signed 32-bit value\<close>

lemma sint_add_of_nat:
  fixes w :: "32 word"
  assumes "sint w + int k \<le> 2147483647"
  shows "sint (w + of_nat k) = sint w + int k"
proof -
  have "w + of_nat k = word_of_int (sint w + int k)" by simp
  moreover have "- (2 ^ 31) \<le> sint w + int k"
    using sint_ge [of w] by simp
  moreover have "sint w + int k < 2 ^ 31" using assms by simp
  ultimately show ?thesis
    by (simp only: sint_sbintrunc') (simp add: signed_take_bit_int_eq_self)
qed

section \<open>The change counter, whatever the list\<close>

lemma delete_Node_count: "delete_Node p l = Some l' \<Longrightarrow> l_count l' = l_count l"
  by (auto simp add: delete_Node_def split: ptr.splits bind_splits)

lemma addNode_count:
  "addNode alloc i e l = Some (b, l') \<Longrightarrow> l_count l' = (if b then l_count l + 1 else l_count l)"
  by (auto simp add: addNode_def new_Node_def Let_def
      split: bind_splits if_splits ptr.splits dest!: delete_Node_count)

lemma removeNode_count:
  "removeNode p l = Some (b, l') \<Longrightarrow> l_count l' = (if b then l_count l + 1 else l_count l)"
  by (auto simp add: removeNode_def split: bind_splits if_splits dest!: delete_Node_count)

lemma run_op_count:
  "run_op c l = Some (b, l') \<Longrightarrow> l_count l' = (if b then l_count l + 1 else l_count l)"
  by (cases c)
     (auto simp add: add_def add_at_def remove_at_def removeElement_def removeFirst_def
        removeLast_def remove_head_def
        split: bind_splits if_splits dest: addNode_count removeNode_count)

lemma run_ops_count:
  "run_ops cs l = Some (bs, l') \<Longrightarrow> l_count l' = l_count l + of_nat (modifications bs)"
proof (induction cs arbitrary: l bs)
  case Nil
  then show ?case by (simp add: modifications_def)
next
  case (Cons c cs)
  from Cons.prems obtain b l1 bs1 where
    s: "run_op c l = Some (b, l1)" "run_ops cs l1 = Some (bs1, l')" "bs = b # bs1"
    by (auto split: bind_splits)
  from run_op_count [OF s(1)] Cons.IH [OF s(2)] s(3) show ?case
    by (simp add: modifications_def)
qed

section \<open>Long sequences of calls\<close>

lemma run_ops_append:
  "run_ops (cs @ ds) l = do {
     (bs, l1) \<leftarrow> run_ops cs l;
     (bs', l2) \<leftarrow> run_ops ds l1;
     Some (bs @ bs', l2)
   }"
  by (induction cs arbitrary: l) (auto split: bind_splits)

lemma run_ops_adds:
  "list_inv l as xs \<Longrightarrow> l_isConstructed l \<Longrightarrow> length xs + n \<le> 2147483648 \<Longrightarrow>
   \<exists>l' as'. run_ops (replicate n (Add True e)) l = Some (replicate n True, l') \<and>
      list_inv l' as' (xs @ replicate n e) \<and> l_isConstructed l'"
proof (induction n arbitrary: l as xs)
  case 0
  then show ?case by auto
next
  case (Suc n)
  from add_inv [OF Suc.prems(1), of True e] Suc.prems(2,3) obtain l1 where
    a: "add True e l = Some (True, l1)" "list_inv l1 (as @ [brk l]) (xs @ [e])" "l_isConstructed l1"
    by auto
  from Suc.IH [OF a(2,3)] Suc.prems(3) obtain l' as' where
    b: "run_ops (replicate n (Add True e)) l1 = Some (replicate n True, l')"
       "list_inv l' as' ((xs @ [e]) @ replicate n e)" "l_isConstructed l'"
    by auto
  have "(xs @ [e]) @ replicate n e = xs @ replicate (Suc n) e" by simp
  with a b show ?case by auto
qed

lemma run_ops_add_removeLast:
  "list_inv l as xs \<Longrightarrow> l_isConstructed l \<Longrightarrow> length xs \<le> 2147483646 \<Longrightarrow>
   \<exists>l'. run_ops (concat (replicate n [Add True e, RemoveLast])) l = Some (replicate (2 * n) True, l') \<and>
      list_inv l' as xs \<and> l_isConstructed l' \<and> l_illegal l' = l_illegal l"
proof (induction n arbitrary: l)
  case 0
  then show ?case by auto
next
  case (Suc n)
  have len: "length as = length xs" by (rule list_inv_length [OF Suc.prems(1)])
  from add_inv [OF Suc.prems(1), of True e] Suc.prems(2,3) obtain l1 where
    a: "add True e l = Some (True, l1)" "list_inv l1 (as @ [brk l]) (xs @ [e])"
       "l_isConstructed l1" "l_illegal l1 = l_illegal l"
    by auto
  have g: "getLength l1 = Some (int (length xs) + 1)"
    using getLength_wf [OF list_inv_wf [OF a(2)]] Suc.prems(3) len by (simp add: int32_def)
  have i: "int32 (int (length xs)) = int (length xs)"
    using Suc.prems(3) by (simp add: int32_def)
  have f: "int32 (int (length (xs @ [e]))) = int (length xs) + 1"
    using Suc.prems(3) by (simp add: int32_def)
  from remove_at_inv [OF a(2), of "int (length xs)"] f len obtain l2 where
    r: "remove_at (int (length xs)) l1 = Some (True, l2)" "list_inv l2 as xs"
       "l_isConstructed l2 = l_isConstructed l1" "l_illegal l2 = l_illegal l1"
    by auto
  have rl: "removeLast l1 = Some (True, l2)" by (simp add: removeLast_def g i r(1))
  from Suc.IH [OF r(2)] r(3) a(3) Suc.prems(3) obtain l' where
    b: "run_ops (concat (replicate n [Add True e, RemoveLast])) l2 = Some (replicate (2 * n) True, l')"
       "list_inv l' as xs" "l_isConstructed l'" "l_illegal l' = l_illegal l2"
    by auto
  show ?case using a rl r b by auto
qed

lemma successful_adds:
  "successful True (replicate n (Add alloc e)) (replicate n True) = n"
  "successful False (replicate n (Add alloc e)) (replicate n True) = 0"
  by (induction n) simp_all

lemma modifications_replicate: "modifications (replicate n True) = n"
  by (induction n) (simp_all add: modifications_def)

text \<open>A 32-bit counter returns to its value after a multiple of \<open>2^32\<close> increments, and only then.\<close>

lemma word32_of_nat_0: "(of_nat n = (0::32 word)) = (4294967296 dvd n)"
  using word_of_nat_eq_0_iff [where 'a = 32, of n] by simp

section \<open>The claims\<close>

text \<open>
  Claim C1. Starting from an empty constructed list, after \<open>add(10)\<close>, \<open>add(20)\<close>,
  \<open>add(1, 15)\<close> (every allocation served) the three calls have returned \<open>true\<close>, \<open>get\<close>
  reads the sequence 10, 15, 20, \<open>getLength()\<close> is 3 and \<open>getIndexOf(20)\<close> is 2; a
  subsequent \<open>remove(0)\<close> returns \<open>true\<close> and leaves the sequence 15, 20 with
  \<open>getLength()\<close> 2 and \<open>getFirst()\<close> 15.
\<close>

theorem example_scenario:
  "do {
     (b1, l1) \<leftarrow> add True 10 (LinkedList (illegal::int));
     (b2, l2) \<leftarrow> add True 20 l1;
     (b3, l3) \<leftarrow> add_at True 1 15 l2;
     (b4, l4) \<leftarrow> remove_at 0 l3;
     Some ([b1, b2, b3], map (get l3) [0, 1, 2], getLength l3, getIndexOf l3 20,
           b4, map (get l4) [0, 1], getLength l4, getFirst l4)
   } = Some ([True, True, True], [Some 10, Some 15, Some 20], Some 3, Some 2,
             True, [Some 15, Some 20], Some 2, Some 15)"
  by code_simp

text \<open>
  Claim C2, as stated, at a list that has reached \<open>2^31\<close> elements: from a freshly
  constructed list \<open>2^31\<close> calls of \<open>add(5)\<close>, every allocation served, all return \<open>true\<close>
  and no \<open>remove\<close> is called, so the claim has \<open>getLength()\<close> equal to \<open>2^31\<close>. The index
  of the last node is then \<open>INT32_MAX\<close>, and \<^verbatim>\<open>last_->getIndex() + 1\<close> is computed in
  \<open>int32\<close>: \<open>getLength()\<close> returns \<open>INT32_MIN\<close>.
\<close>

theorem length_wraps_counterexample:
  "map_option (\<lambda>(bs, l'). (successful True (replicate 2147483648 (Add True 5)) bs,
                            successful False (replicate 2147483648 (Add True 5)) bs,
                            getLength l'))
     (run_ops (replicate 2147483648 (Add True 5)) (LinkedList (0::int)))
   = Some (2147483648, 0, Some (- 2147483648))"
proof -
  from run_ops_adds [OF list_inv_LinkedList [of "0::int"], where n = 2147483648 and e = "5::int"] obtain l' as' where
    r: "run_ops (replicate 2147483648 (Add True 5)) (LinkedList (0::int))
          = Some (replicate 2147483648 True, l')"
       "list_inv l' as' ([] @ replicate 2147483648 5)"
    by (auto simp add: LinkedList_def)
  have "getLength l' = Some (- 2147483648)"
    using getLength_wf [OF list_inv_wf [OF r(2)]] list_inv_length [OF r(2)]
    by (simp add: int32_def)
  with r(1) show ?thesis by (simp add: successful_adds)
qed

text \<open>
  Claim C2, amended. On a freshly constructed list (whatever its illegal value), every
  finite sequence of \<open>add\<close> calls (with one or two arguments, whatever the allocator
  answers) and \<open>remove\<close> calls (by index, by element, first, last or head) runs to its end,
  and \<open>getLength()\<close> afterwards is the number of the \<open>add\<close> calls that returned \<open>true\<close> minus
  the number of the \<open>remove\<close> calls that returned \<open>true\<close>, reduced to \<open>int32\<close>; it is that
  number itself as long as the number is at most \<open>INT32_MAX\<close>.
\<close>

theorem length_counts_successful_calls:
  "\<exists>bs l'. run_ops cs (LinkedList illegal) = Some (bs, l') \<and> length bs = length cs \<and>
     getLength l' = Some (int32 (int (successful True cs bs) - int (successful False cs bs))) \<and>
     (int (successful True cs bs) - int (successful False cs bs) \<le> 2147483647 \<longrightarrow>
      getLength l' = Some (int (successful True cs bs) - int (successful False cs bs)))"
proof -
  from run_ops_inv [OF list_inv_LinkedList, of cs illegal] obtain bs l' as' xs' where
    r: "run_ops cs (LinkedList illegal) = Some (bs, l')" "length bs = length cs"
      "list_inv l' as' xs'"
      "int (length xs') = int (length ([]::'a list)) + int (successful True cs bs) - int (successful False cs bs)"
    by blast
  have g: "getLength l' = Some (int32 (int (successful True cs bs) - int (successful False cs bs)))"
    using getLength_wf [OF list_inv_wf [OF r(3)]] list_inv_length [OF r(3)] r(4) by simp
  have "int (successful True cs bs) - int (successful False cs bs) \<le> 2147483647 \<longrightarrow>
      int32 (int (successful True cs bs) - int (successful False cs bs))
        = int (successful True cs bs) - int (successful False cs bs)"
    using r(4) by (auto intro!: int32_id)
  with g r show ?thesis by auto
qed

theorem length_counts_successful_calls_witness:
  "\<exists>l'. run_ops [Add True 1, Add False 2, AddAt True 0 3, RemoveAt 7, RemoveLast] (LinkedList (0::int))
          = Some ([True, False, True, False, True], l') \<and>
        getLength l' = Some 1"
proof -
  define cs where "cs = [Add True 1, Add False 2, AddAt True 0 3, RemoveAt 7, RemoveLast :: int operation]"
  have e: "map_option fst (run_ops cs (LinkedList (0::int))) = Some [True, False, True, False, True]"
    unfolding cs_def by code_simp
  from length_counts_successful_calls [of cs "0::int"] obtain bs l' where
    r: "run_ops cs (LinkedList (0::int)) = Some (bs, l')"
       "int (successful True cs bs) - int (successful False cs bs) \<le> 2147483647 \<longrightarrow>
        getLength l' = Some (int (successful True cs bs) - int (successful False cs bs))"
    by blast
  from e r(1) have bs: "bs = [True, False, True, False, True]" by simp
  from r(2) have "getLength l' = Some 1" by (simp add: bs cs_def)
  with r(1) bs show ?thesis by (auto simp add: cs_def)
qed

text \<open>
  Claim C3, as stated, fails in two ways. First, the test of staleness compares two
  \<open>int32\<close> counters, so modifications in a multiple of \<open>2^32\<close> go unseen: over the list
  10, 15, 20 an iterator is created at index 0, then the list receives \<open>2^31\<close> times
  \<open>add(5)\<close> followed by \<open>removeLast()\<close>, all \<open>2^32\<close> calls returning \<open>true\<close>; the counters
  agree again, \<open>hasNext()\<close> reports \<open>true\<close> and \<open>getNext()\<close> returns the element 10 where
  the claim has it return the illegal value. Second, \<open>getIllegal\<close>, \<open>setIllegal\<close> and
  \<open>isIllegal\<close> of the iterator do not test the counters: after one direct \<open>add(30)\<close> the
  stale iterator's \<open>isIllegal(-1)\<close> returns \<open>true\<close> and its \<open>setIllegal(99)\<close> sets the
  illegal value of the list.
\<close>

theorem stale_iterator_revalidates_counterexample:
  "getListIterator True 0 example_list = Some (Some example_iterator) \<and>
   map_option (\<lambda>(bs, l'). (modifications bs, l_count l' = i_self example_iterator,
                            Iterator_hasNext example_iterator l',
                            map_option fst (Iterator_getNext example_iterator l')))
     (run_ops (concat (replicate 2147483648 [Add True 5, RemoveLast])) example_list)
     = Some (4294967296, True, True, Some 10) \<and>
   map_option (\<lambda>(b, l'). (b, l_count l' = i_self example_iterator,
                           Iterator_isIllegal example_iterator l' (- 1),
                           l_illegal (Iterator_setIllegal 99 example_iterator l')))
     (add True 30 example_list)
     = Some (True, False, True, 99)"
proof -
  have f: "l_isConstructed example_list" "l_count example_list = 3"
    "l_illegal example_list = - 1"
    by (simp_all add: example_list_def)
  have s: "i_self example_iterator = 3" "i_curs example_iterator = Ptr ([0, 2, 1] ! 0)"
    by (simp_all add: example_iterator_def)
  from run_ops_add_removeLast [OF example_list_inv f(1), where n = 2147483648 and e = 5]
  obtain l' where
    r: "run_ops (concat (replicate 2147483648 [Add True 5, RemoveLast])) example_list
          = Some (replicate (2 * 2147483648) True, l')"
       "list_inv l' [0, 2, 1] [10, 15, 20]"
    by auto
  have c: "l_count l' = 3"
    using run_ops_count [OF r(1)] by (simp add: modifications_replicate f)
  have v: "i_self example_iterator = l_count l'" by (simp add: s c)
  have "Iterator_hasNext example_iterator l'"
    by (rule Iterator_forward_inv(1) [OF r(2) v s(2)]) simp
  moreover have "map_option fst (Iterator_getNext example_iterator l') = Some 10"
    using Iterator_forward_inv(3) [OF r(2) v s(2)] by simp
  ultimately have one: "map_option (\<lambda>(bs, l'). (modifications bs, l_count l' = i_self example_iterator,
                            Iterator_hasNext example_iterator l',
                            map_option fst (Iterator_getNext example_iterator l')))
     (run_ops (concat (replicate 2147483648 [Add True 5, RemoveLast])) example_list)
     = Some (4294967296, True, True, Some 10)"
    using r(1) v by (simp add: modifications_replicate)
  from add_inv [OF example_list_inv, of True 30] obtain l1 where
    a: "add True 30 example_list = Some (True, l1)" "l_count l1 = 4" "l_illegal l1 = - 1"
       "l_isConstructed l1"
    by (auto simp add: f)
  have two: "map_option (\<lambda>(b, l'). (b, l_count l' = i_self example_iterator,
                           Iterator_isIllegal example_iterator l' (- 1),
                           l_illegal (Iterator_setIllegal 99 example_iterator l')))
     (add True 30 example_list)
     = Some (True, False, True, 99)"
    using a by (simp add: s Iterator_isIllegal_def isIllegal_def Iterator_setIllegal_def
        setIllegal_def)
  from example_iterator_reached one two show ?thesis by blast
qed

text \<open>
  Claim C3, amended. An iterator whose counter copy agreed with the list's counter is stale
  after any sequence of \<open>add\<close> and \<open>remove\<close> calls the list receives directly (as another
  iterator's \<open>add\<close> and \<open>remove\<close> make them too) of which the number that returned \<open>true\<close> is
  not a multiple of \<open>2^32\<close>: the counters differ, \<open>hasNext()\<close> and \<open>hasPrevious()\<close> report
  \<open>false\<close>, \<open>getNext()\<close> and \<open>getPrevious()\<close> return the illegal value of the list and leave
  the iterator where it was, \<open>getNextIndex()\<close> returns its end-of-list value \<open>getLength()\<close>
  and \<open>getPreviousIndex()\<close> returns \<open>-1\<close>, and \<open>add\<close> and \<open>remove\<close> return \<open>false\<close> and change
  neither the iterator nor the list. As no failed call changes the iterator or the counter
  of the list, the iterator stays stale. The three accessors of the illegal value are not
  guarded by the counters: on a stale iterator they do what the list's own accessors do.
\<close>

theorem stale_iterator_fails:
  assumes "i_self it = l_count l" and "run_ops cs l = Some (bs, l')"
    and "\<not> 4294967296 dvd modifications bs"
  shows "l_count l' \<noteq> i_self it \<and>
         \<not> Iterator_hasNext it l' \<and>
         Iterator_hasPrevious it l' = Some False \<and>
         Iterator_getNext it l' = Some (l_illegal l', it) \<and>
         Iterator_getPrevious it l' = Some (l_illegal l', it) \<and>
         Iterator_getNextIndex it l' = getLength l' \<and>
         Iterator_getPreviousIndex it l' = Some (- 1) \<and>
         Iterator_add alloc e it l' = Some (False, it, l') \<and>
         Iterator_remove it l' = Some (False, it, l') \<and>
         Iterator_getIllegal it l' = l_illegal l' \<and>
         Iterator_isIllegal it l' v = isIllegal l' v \<and>
         Iterator_setIllegal v it l' = setIllegal v l'"
proof -
  from run_ops_count [OF assms(2)] have "l_count l' = l_count l + of_nat (modifications bs)" .
  moreover have "of_nat (modifications bs) \<noteq> (0::32 word)"
    using assms(3) by (simp add: word32_of_nat_0)
  ultimately have stale: "l_count l' \<noteq> i_self it" using assms(1) by simp
  then show ?thesis
    by (simp add: Iterator_hasNext_def Iterator_hasPrevious_def Iterator_getNext_def
        Iterator_getPrevious_def Iterator_getNextIndex_def Iterator_getPreviousIndex_def
        Iterator_add_def Iterator_remove_def Iterator_getIllegal_def getIllegal_def
        Iterator_isIllegal_def Iterator_setIllegal_def)
qed

theorem stale_iterator_fails_witness:
  "getListIterator True 0 example_list = Some (Some example_iterator) \<and>
   i_self example_iterator = l_count example_list \<and>
   (\<exists>l'. run_ops [Add True 30, RemoveAt 9] example_list = Some ([True, False], l') \<and>
      \<not> 4294967296 dvd modifications [True, False] \<and>
      \<not> Iterator_hasNext example_iterator l' \<and>
      Iterator_hasPrevious example_iterator l' = Some False \<and>
      Iterator_getNext example_iterator l' = Some (- 1, example_iterator) \<and>
      Iterator_getPreviousIndex example_iterator l' = Some (- 1) \<and>
      Iterator_remove example_iterator l' = Some (False, example_iterator, l'))"
proof -
  have f: "l_isConstructed example_list" "l_count example_list = 3"
    "l_illegal example_list = - 1"
    by (simp_all add: example_list_def)
  have s: "i_self example_iterator = l_count example_list"
    by (simp add: example_iterator_def f)
  have m: "\<not> 4294967296 dvd modifications [True, False]" by (simp add: modifications_def)
  from add_inv [OF example_list_inv, of True 30] obtain l1 where
    a: "add True 30 example_list = Some (True, l1)" "l_illegal l1 = - 1"
       "list_inv l1 ([0, 2, 1] @ [brk example_list]) ([10, 15, 20] @ [30])"
    by (auto simp add: f)
  from remove_at_inv [OF a(3), of 9] have b: "remove_at 9 l1 = Some (False, l1)"
    by (auto simp add: int32_def)
  from a(1) b have r: "run_ops [Add True 30, RemoveAt 9] example_list = Some ([True, False], l1)"
    by simp
  show ?thesis
    using stale_iterator_fails [OF s r m, of True 0 0] example_iterator_reached s r m a(2)
    by auto
qed

text \<open>
  Claim C4 fails on the code where the last element returned was the tail. Over the list
  10, 20 an iterator created at index 0 returns 10 and then 20 from \<open>getNext()\<close>; its counter
  still agrees with the list's, its last-returned index is 1 and its cursor is \<open>NULL\<close>.
  \<open>remove()\<close> then evaluates \<^verbatim>\<open>curs_->getIndex()\<close> through the null cursor: the call has no
  defined result, where the claim has it remove the element at index 1 and leave the
  cursor unchanged. With the cursor at a node, \<open>remove()\<close> does what the claim says
  (\<open>Iterator_remove_inv\<close>).
\<close>

theorem remove_after_tail_dereferences_null:
  "do {
     (b1, l1) \<leftarrow> add True 10 (LinkedList (0::int));
     (b2, l2) \<leftarrow> add True 20 l1;
     ito \<leftarrow> getListIterator True 0 l2;
     it0 \<leftarrow> ito;
     (e1, it1) \<leftarrow> Iterator_getNext it0 l2;
     (e2, it2) \<leftarrow> Iterator_getNext it1 l2;
     Some (e1, e2, i_rindex it2, i_curs it2, l_count l2 = i_self it2,
           map_option fst (Iterator_remove it2 l2))
   } = Some (10, 20, 1, NULL, True, None)"
  by code_simp

text \<open>
  Claim C5. On every well-formed list, constructed or not, \<open>getLength()\<close> returns the number
  of elements reduced to \<open>int32\<close> (the number itself up to \<open>INT32_MAX\<close> elements, and
  \<open>INT32_MIN\<close> at \<open>2^31\<close> elements, the most a list can reach); \<open>get(i)\<close> returns the element
  at logical position \<open>i\<close> when \<open>0 \<le> i < getLength()\<close>, and the illegal value of the list
  when \<open>i\<close> is outside that range or the list is not constructed; \<open>getFirst()\<close> and \<open>peek()\<close>
  are \<open>get(0)\<close>, and \<open>getLast()\<close> is \<open>get(getLength() - 1)\<close> with the subtraction in \<open>int32\<close>,
  which is \<open>get\<close> at the number of elements minus one. Each accessor returns a value (no
  undefined behaviour), and as a function of the list it returns no new list: it mutates
  nothing.
\<close>

theorem read_accessors_total:
  assumes "list_wf l as xs"
  shows "\<exists>len. getLength l = Some len \<and> len = int32 (int (length xs)) \<and>
           (length xs \<le> 2147483647 \<longrightarrow> len = int (length xs)) \<and>
           get l i = Some (if l_isConstructed l \<and> 0 \<le> i \<and> i < len
                           then xs ! nat i else l_illegal l) \<and>
           getFirst l = get l 0 \<and> peek l = get l 0 \<and>
           getLast l = get l (int32 (len - 1)) \<and>
           getLast l = get l (int (length xs) - 1)"
proof -
  have len: "length as = length xs" by (rule list_wf_length [OF assms])
  have bound: "length as \<le> 2147483648" using assms by (simp add: list_wf_def)
  have r: "ring (heap l) as xs" using assms by (simp add: list_wf_def)
  have g: "getLength l = Some (int32 (int (length xs)))"
    using getLength_wf [OF assms] len by simp
  have "get l i = Some (if l_isConstructed l \<and> 0 \<le> i \<and> i < int32 (int (length xs))
                          then xs ! nat i else l_illegal l)"
  proof (cases "0 \<le> i \<and> i < int32 (int (length xs))")
    case True
    then have "nat i < length as" using int32_length_pos [OF bound, of i] len by auto
    then show ?thesis
      using True len by (simp add: get_def getNodeByIndex_wf [OF assms] Node_getElement_ring [OF r])
  next
    case False
    then show ?thesis using len by (auto simp add: get_def getNodeByIndex_wf [OF assms])
  qed
  moreover have "length xs \<le> 2147483647 \<longrightarrow> int32 (int (length xs)) = int (length xs)"
    by (simp add: int32_length)
  moreover have "int32 (int32 (int (length xs)) - 1) = int (length xs) - 1"
  proof (cases "length xs = 2147483648")
    case True
    then show ?thesis by (simp add: int32_def)
  next
    case False
    with bound len have "length xs \<le> 2147483647" by simp
    then show ?thesis by (simp add: int32_length int32_def)
  qed
  ultimately show ?thesis
    using g by (simp add: getFirst_def peek_def getLast_def)
qed

theorem read_accessors_total_witness:
  "list_wf example_list [0, 2, 1] [10, 15, 20] \<and>
   get example_list 1 = Some 15 \<and> get example_list 3 = Some (- 1) \<and>
   getLength example_list = Some 3 \<and> getFirst example_list = Some 10 \<and>
   peek example_list = Some 10 \<and> getLast example_list = Some 20"
proof -
  note wf = list_inv_wf [OF example_list_inv]
  note t = read_accessors_total [OF wf]
  have f: "l_isConstructed example_list" "l_illegal example_list = - 1"
    by (simp_all add: example_list_def)
  have i: "int32 2 = 2" by (simp add: int32_def)
  show ?thesis
    using wf t [of 0] t [of 1] t [of 2] t [of 3] by (auto simp add: f i)
qed

text \<open>
  Claim C6, as stated, at a list whose construction failed: the list is empty, index 0 lies
  within \<open>[0, getLength()]\<close> and the allocator would serve the request, yet \<open>add(0, 7)\<close>
  returns \<open>false\<close>, because \<open>add\<close> is guarded by \<open>isConstructed()\<close>.
\<close>

theorem add_at_unconstructed_counterexample:
  "getLength unconstructed_list = Some 0 \<and>
   add_at True 0 7 unconstructed_list = Some (False, unconstructed_list)"
  by (simp add: unconstructed_list_def LinkedList_def getLength_def add_at_def)

text \<open>
  Claim C6, amended. On every well-formed list, \<open>add(index, element)\<close> returns \<open>false\<close>
  exactly when the list is not constructed, \<open>index\<close> is outside \<open>[0, getLength()]\<close> or the
  node allocation fails, and it then leaves the list unchanged; \<open>getLength()\<close> here is the
  value the function returns, the number of elements up to \<open>INT32_MAX\<close> of them. When \<open>add\<close>
  returns \<open>true\<close> the element stands at position \<open>index\<close> of the sequence, with the elements
  from there on moved up by one (\<open>index = getLength()\<close> appends), and when the list was
  empty the new node is \<open>last_\<close>.
\<close>

theorem add_at_fails_exactly_when:
  assumes "list_inv l as xs"
  shows "\<exists>len. getLength l = Some len \<and>
           (length xs \<le> 2147483647 \<longrightarrow> len = int (length xs)) \<and>
           (\<exists>b l'. add_at alloc i e l = Some (b, l') \<and>
              (\<not> b \<longleftrightarrow> \<not> l_isConstructed l \<or> i < 0 \<or> len < i \<or> \<not> alloc) \<and>
              (if b
               then list_inv l' (take (nat i) as @ brk l # drop (nat i) as)
                                (take (nat i) xs @ e # drop (nat i) xs) \<and>
                    (xs = [] \<longrightarrow> l_last l' = Ptr (brk l))
               else l' = l))"
proof -
  have len: "length as = length xs" by (rule list_inv_length [OF assms])
  have g: "getLength l = Some (int32 (int (length xs)))"
    using getLength_wf [OF list_inv_wf [OF assms]] len by simp
  from add_at_inv [OF assms, of alloc i e] obtain l' where
    l': "add_at alloc i e l = Some (l_isConstructed l \<and> 0 \<le> i \<and> i \<le> int32 (int (length xs)) \<and> alloc, l')"
      "if l_isConstructed l \<and> 0 \<le> i \<and> i \<le> int32 (int (length xs)) \<and> alloc
            then list_inv l' (take (nat i) as @ brk l # drop (nat i) as)
                             (take (nat i) xs @ e # drop (nat i) xs) \<and>
                 l_count l' = l_count l + 1 \<and> l_illegal l' = l_illegal l \<and>
                 l_isConstructed l' = l_isConstructed l
            else l' = l" by blast
  have "\<exists>b l'. add_at alloc i e l = Some (b, l') \<and>
            (\<not> b \<longleftrightarrow> \<not> l_isConstructed l \<or> i < 0 \<or> int32 (int (length xs)) < i \<or> \<not> alloc) \<and>
            (if b
             then list_inv l' (take (nat i) as @ brk l # drop (nat i) as)
                              (take (nat i) xs @ e # drop (nat i) xs) \<and>
                  (xs = [] \<longrightarrow> l_last l' = Ptr (brk l))
             else l' = l)"
  proof (cases "l_isConstructed l \<and> 0 \<le> i \<and> i \<le> int32 (int (length xs)) \<and> alloc")
    case True
    with l' have inv': "list_inv l' (take (nat i) as @ brk l # drop (nat i) as)
                             (take (nat i) xs @ e # drop (nat i) xs)" by simp
    have "xs = [] \<longrightarrow> l_last l' = Ptr (brk l)"
      using inv' len by (auto simp add: list_inv_def list_wf_def)
    with True l' inv' show ?thesis
      by (intro exI [of _ True] exI [of _ l']) auto
  next
    case False
    with l' show ?thesis by (intro exI [of _ False] exI [of _ l]) auto
  qed
  moreover have "length xs \<le> 2147483647 \<longrightarrow> int32 (int (length xs)) = int (length xs)"
    by (simp add: int32_length)
  ultimately show ?thesis using g by simp
qed

theorem add_at_fails_exactly_when_witness:
  "list_inv example_list [0, 2, 1] [10, 15, 20] \<and>
   (\<exists>l'. add_at True 1 12 example_list = Some (True, l') \<and>
         list_inv l' [0, 3, 2, 1] [10, 12, 15, 20]) \<and>
   add_at True 4 12 example_list = Some (False, example_list) \<and>
   add_at False 1 12 example_list = Some (False, example_list) \<and>
   (\<exists>l'. add_at True 0 12 (LinkedList (0::int)) = Some (True, l') \<and> l_last l' = Ptr 0)"
proof -
  note t = add_at_fails_exactly_when [OF example_list_inv]
  have f: "l_isConstructed example_list" "brk example_list = 3"
    by (simp_all add: example_list_def)
  have g: "l_isConstructed (LinkedList (0::int))" "brk (LinkedList (0::int)) = 0"
    by (simp_all add: LinkedList_def)
  have "\<exists>l'. add_at True 1 12 example_list = Some (True, l') \<and>
         list_inv l' [0, 3, 2, 1] [10, 12, 15, 20]"
    using t [of True 1 12] by (auto simp add: f split: if_splits)
  moreover have "add_at True 4 12 example_list = Some (False, example_list)"
    using t [of True 4 12] by (auto simp add: f split: if_splits)
  moreover have "add_at False 1 12 example_list = Some (False, example_list)"
    using t [of False 1 12] by (auto simp add: f split: if_splits)
  moreover have "\<exists>l'. add_at True 0 12 (LinkedList (0::int)) = Some (True, l') \<and> l_last l' = Ptr 0"
    using add_at_fails_exactly_when [OF list_inv_LinkedList [of "0::int"],
        where alloc = True and i = 0 and e = "12::int"]
    by (auto simp add: g split: if_splits)
  ultimately show ?thesis using example_list_inv by simp
qed

text \<open>
  Claim C7, as stated, at a list that has reached \<open>2^31\<close> elements: from a freshly
  constructed list \<open>2^31\<close> calls of \<open>add(5)\<close>, every allocation served, all return \<open>true\<close>,
  so the list holds the value 5. In \<open>getNodeByElement\<close> the length \<open>len\<close> is then
  \<open>INT32_MIN\<close>, the loop \<^verbatim>\<open>for(int32 i=0; i<len; ...)\<close> is not entered and the function
  returns \<open>NULL\<close>: \<open>removeElement(5)\<close> returns \<open>false\<close>.
\<close>

theorem removeElement_full_list_counterexample:
  "map_option (\<lambda>(bs, l'). (bs = replicate 2147483648 True, map_option fst (removeElement 5 l')))
     (run_ops (replicate 2147483648 (Add True 5)) (LinkedList (0::int)))
   = Some (True, Some False)"
proof -
  from run_ops_adds [OF list_inv_LinkedList [of "0::int"], where n = 2147483648 and e = "5::int"] obtain l' as' where
    r: "run_ops (replicate 2147483648 (Add True 5)) (LinkedList (0::int))
          = Some (replicate 2147483648 True, l')"
       "list_inv l' as' ([] @ replicate 2147483648 5)"
    by (auto simp add: LinkedList_def)
  from removeElement_inv [OF r(2), of 5] have "map_option fst (removeElement 5 l') = Some False"
    by auto
  with r(1) show ?thesis by simp
qed

text \<open>
  Claim C7, amended. On every well-formed list of at most \<open>INT32_MAX\<close> elements holding the
  value \<open>e\<close>, \<open>removeElement(e)\<close> returns \<open>true\<close> and removes the node at the lowest position
  \<open>k\<close> that holds \<open>e\<close>: no earlier element equals \<open>e\<close>, and the elements before and after
  position \<open>k\<close>, later duplicates of \<open>e\<close> among them, stay in their order. When the list
  does not hold \<open>e\<close>, or has \<open>2^31\<close> elements, it returns \<open>false\<close> and the list is unchanged.
\<close>

theorem removeElement_first_occurrence:
  assumes "list_inv l as xs"
  shows "\<exists>l' k. removeElement e l = Some (length xs \<le> 2147483647 \<and> e \<in> set xs, l') \<and>
           (if length xs \<le> 2147483647 \<and> e \<in> set xs
            then k < length xs \<and> xs ! k = e \<and> e \<notin> set (take k xs) \<and>
                 list_inv l' (take k as @ drop (Suc k) as) (take k xs @ drop (Suc k) xs)
            else l' = l)"
proof (cases "length xs \<le> 2147483647 \<and> e \<in> set xs")
  case True
  then have e: "e \<in> set xs" by simp
  have len: "length as = length xs" by (rule list_inv_length [OF assms])
  note wf = list_inv_wf [OF assms]
  define k where "k = length (takeWhile (\<lambda>x. x \<noteq> e) xs)"
  have k: "k < length xs" using takeWhile_neq_less [OF e] by (simp add: k_def)
  then have c: "l_isConstructed l" using assms len by (auto simp add: list_inv_def)
  have xk: "xs ! k = e"
    using nth_length_takeWhile [of "\<lambda>x. x \<noteq> e" xs] k by (simp add: k_def)
  have "take k xs = takeWhile (\<lambda>x. x \<noteq> e) xs"
    unfolding k_def by (induction xs) auto
  then have nt: "e \<notin> set (take k xs)" by (auto dest: set_takeWhileD)
  from k len have "k < length as" by simp
  from removeNode_inv [OF assms this] obtain l' where
    "removeNode (Ptr (as ! k)) l = Some (True, l')"
    "list_inv l' (take k as @ drop (Suc k) as) (take k xs @ drop (Suc k) xs)" by blast
  then show ?thesis
    using True c k xk nt len
    by (intro exI [of _ l'] exI [of _ k])
       (simp add: removeElement_def getNodeByElement_wf [OF wf] k_def)
next
  case False
  then show ?thesis
    using list_inv_length [OF assms]
    by (auto simp add: removeElement_def getNodeByElement_wf [OF list_inv_wf [OF assms]] removeNode_def)
qed

theorem removeElement_first_occurrence_witness:
  "list_inv duplicates_list [0, 1, 2] [10, 20, 20] \<and>
   (\<exists>l'. removeElement 20 duplicates_list = Some (True, l') \<and> list_inv l' [0, 2] [10, 20]) \<and>
   removeElement 30 duplicates_list = Some (False, duplicates_list)"
proof -
  note t = removeElement_first_occurrence [OF duplicates_list_inv]
  from t [of 20] obtain l' k where
    r0: "removeElement 20 duplicates_list
           = Some (length [10, 20, 20::int] \<le> 2147483647 \<and> (20::int) \<in> set [10, 20, 20], l') \<and>
         (if length [10, 20, 20::int] \<le> 2147483647 \<and> (20::int) \<in> set [10, 20, 20]
          then k < length [10, 20, 20::int] \<and> [10, 20, 20] ! k = (20::int) \<and>
               (20::int) \<notin> set (take k [10, 20, 20]) \<and>
               list_inv l' (take k [0, 1, 2] @ drop (Suc k) [0, 1, 2])
                   (take k [10, 20, 20] @ drop (Suc k) [10, 20, 20])
          else l' = duplicates_list)"
    by blast
  then have r: "removeElement 20 duplicates_list = Some (True, l')" "k < 3"
      "[10, 20, 20] ! k = (20::int)" "(20::int) \<notin> set (take k [10, 20, 20])"
      "list_inv l' (take k [0, 1, 2] @ drop (Suc k) [0, 1, 2])
                   (take k [10, 20, 20] @ drop (Suc k) [10, 20, 20])"
    by simp_all
  have "k = 1"
  proof -
    consider "k = 0" | "k = 1" | "k = 2" using r(2) by arith
    then show ?thesis using r(3,4) by cases simp_all
  qed
  with r(1,5) have "\<exists>l'. removeElement 20 duplicates_list = Some (True, l') \<and> list_inv l' [0, 2] [10, 20]"
    by simp
  moreover have "removeElement 30 duplicates_list = Some (False, duplicates_list)"
    using t [of 30] by simp
  ultimately show ?thesis using duplicates_list_inv by simp
qed

text \<open>
  Claim C8 fails on the code at the end of a non-empty list. Over the list 10, 20 an
  iterator created at index 2 has a \<open>NULL\<close> cursor and is not stale; \<open>getNextIndex()\<close>
  returns the length 2, but \<open>getPreviousIndex()\<close> and \<open>getPrevious()\<close> have no defined
  result, because both first call \<open>hasPrevious()\<close>, which reads
  \<^verbatim>\<open>curs_->getPrevious()\<close> through the null cursor. The claim has \<open>getPreviousIndex()\<close> return
  1 there, as the code's own branch \<^verbatim>\<open>curs_ == NULL ? last_->getIndex()\<close> intends.
  With the cursor at a node, both index functions return what the claim says
  (\<open>Iterator_forward_inv\<close>, \<open>Iterator_backward_inv\<close>).
\<close>

theorem getPreviousIndex_at_end_dereferences_null:
  "do {
     (b1, l1) \<leftarrow> add True 10 (LinkedList (0::int));
     (b2, l2) \<leftarrow> add True 20 l1;
     ito \<leftarrow> getListIterator True 2 l2;
     it \<leftarrow> ito;
     Some (i_curs it, l_count l2 = i_self it, getLength l2, Iterator_getNextIndex it l2,
           Iterator_getPreviousIndex it l2, Iterator_getPrevious it l2)
   } = Some (NULL, True, Some 2, Some 2, None, None)"
  by code_simp

text \<open>
  Claim C9 fails on the code. Over the one-element list 10 an iterator created at index 0
  returns 10 from \<open>getNext()\<close>, which leaves its cursor \<open>NULL\<close> and its counter in
  agreement with the list's. In that state \<open>hasPrevious()\<close> passes the counter check and
  the \<^verbatim>\<open>last_ == NULL\<close> check and reads \<^verbatim>\<open>curs_->getPrevious()\<close>, and \<open>remove()\<close> reads
  \<^verbatim>\<open>curs_->getIndex()\<close>: both dereference the null cursor and have no defined result.
\<close>

theorem hasPrevious_at_end_dereferences_null:
  "do {
     (b, l) \<leftarrow> add True 10 (LinkedList (0::int));
     ito \<leftarrow> getListIterator True 0 l;
     it \<leftarrow> ito;
     (e, it') \<leftarrow> Iterator_getNext it l;
     Some (b, e, i_curs it', l_count l = i_self it', Iterator_hasPrevious it' l,
           map_option fst (Iterator_remove it' l))
   } = Some (True, 10, NULL, True, None, None)"
  by code_simp

text \<open>
  Claim C10, as stated, at a list whose counter is \<open>INT32_MAX\<close>: a further successful
  \<open>add\<close> takes the counter to \<open>INT32_MIN\<close>, so the counter has decreased.
\<close>

theorem count_wraps_counterexample:
  "sint (l_count list_at_INT32_MAX) = 2147483647 \<and>
   map_option (\<lambda>(b, l'). (b, sint (l_count l'))) (add True 8 list_at_INT32_MAX)
     = Some (True, - 2147483648)"
  by code_simp

text \<open>
  Claim C10, amended. On every well-formed list each \<open>add\<close> or \<open>remove\<close> call that returns
  \<open>true\<close> increments \<open>count_\<close> by exactly one, modulo \<open>2^32\<close> (the first insertion into an
  empty list included), and each call that returns \<open>false\<close> leaves it unchanged, as does
  \<open>setIllegal\<close>; the read accessors return no new list at all. So after a sequence of calls
  the counter has grown by the number of calls that returned \<open>true\<close>, modulo \<open>2^32\<close>, and
  it has not decreased as long as that growth does not take it past \<open>INT32_MAX\<close>.
\<close>

theorem count_changes_by_one:
  assumes "list_inv l as xs"
  shows "(\<exists>b l'. run_op c l = Some (b, l') \<and>
            l_count l' = (if b then l_count l + 1 else l_count l) \<and>
            (sint (l_count l) < 2147483647 \<longrightarrow> sint (l_count l) \<le> sint (l_count l'))) \<and>
         (\<exists>bs l'. run_ops cs l = Some (bs, l') \<and>
            l_count l' = l_count l + of_nat (successful True cs bs + successful False cs bs) \<and>
            (sint (l_count l) + int (successful True cs bs + successful False cs bs) \<le> 2147483647
               \<longrightarrow> sint (l_count l) \<le> sint (l_count l'))) \<and>
         l_count (setIllegal v l) = l_count l"
proof -
  from run_op_inv [OF assms, of c] obtain b l' where
    s: "run_op c l = Some (b, l')" "l_count l' = (if b then l_count l + 1 else l_count l)"
    by blast
  have "sint (l_count l) < 2147483647 \<longrightarrow> sint (l_count l) \<le> sint (l_count l')"
  proof
    assume "sint (l_count l) < 2147483647"
    then have "sint (l_count l + of_nat 1) = sint (l_count l) + int 1"
      by (intro sint_add_of_nat) simp
    then show "sint (l_count l) \<le> sint (l_count l')" using s(2) by simp
  qed
  with s have one: "\<exists>b l'. run_op c l = Some (b, l') \<and>
            l_count l' = (if b then l_count l + 1 else l_count l) \<and>
            (sint (l_count l) < 2147483647 \<longrightarrow> sint (l_count l) \<le> sint (l_count l'))"
    by blast
  from run_ops_inv [OF assms, of cs] obtain bs l'' where
    t: "run_ops cs l = Some (bs, l'')"
       "l_count l'' = l_count l + of_nat (successful True cs bs + successful False cs bs)"
    by blast
  have "sint (l_count l) + int (successful True cs bs + successful False cs bs) \<le> 2147483647
               \<longrightarrow> sint (l_count l) \<le> sint (l_count l'')"
    using t(2) sint_add_of_nat [of "l_count l" "successful True cs bs + successful False cs bs"]
    by simp
  with t have many: "\<exists>bs l'. run_ops cs l = Some (bs, l') \<and>
            l_count l' = l_count l + of_nat (successful True cs bs + successful False cs bs) \<and>
            (sint (l_count l) + int (successful True cs bs + successful False cs bs) \<le> 2147483647
               \<longrightarrow> sint (l_count l) \<le> sint (l_count l'))"
    by blast
  have "l_count (setIllegal v l) = l_count l" by (simp add: setIllegal_def)
  with one many show ?thesis by blast
qed

theorem count_changes_by_one_witness:
  "list_inv example_list [0, 2, 1] [10, 15, 20] \<and>
   sint (l_count example_list) < 2147483647 \<and>
   (\<exists>l'. run_op RemoveFirst example_list = Some (True, l') \<and> l_count l' = 4 \<and>
         sint (l_count example_list) \<le> sint (l_count l')) \<and>
   (\<exists>l'. run_op (RemoveAt 5) example_list = Some (False, l') \<and> l_count l' = 3)"
proof -
  note t = count_changes_by_one [OF example_list_inv]
  have f: "l_count example_list = 3" by (simp add: example_list_def)
  from remove_at_inv [OF example_list_inv, of 0] obtain l0 where
    a: "run_op RemoveFirst example_list = Some (True, l0)"
    by (auto simp add: removeFirst_def int32_def)
  from remove_at_inv [OF example_list_inv, of 5] obtain l1 where
    b: "run_op (RemoveAt 5) example_list = Some (False, l1)"
    by (auto simp add: int32_def)
  have "\<exists>l'. run_op RemoveFirst example_list = Some (True, l') \<and> l_count l' = 4 \<and>
         sint (l_count example_list) \<le> sint (l_count l')"
    using t [of RemoveFirst "[]" 0] a by (auto simp add: f)
  moreover have "\<exists>l'. run_op (RemoveAt 5) example_list = Some (False, l') \<and> l_count l' = 3"
    using t [of "RemoveAt 5" "[]" 0] b by (auto simp add: f)
  ultimately show ?thesis using example_list_inv by (simp add: f)
qed

end
